theory Spec2Isabelle
  imports Complex_Main
begin

section \<open>JavaScript values\<close>

text \<open>
  The Pattern Detector (\<^verbatim>\<open>src/storage/PatternDetector.js\<close>) reads analysis records whose
  shape is not fixed: a property may be missing, \<^verbatim>\<open>null\<close>, or of another type than the
  one expected. The records are therefore modelled as untyped values. An object is
  the list of its own properties, each name once. Numbers inside records are
  integers (identifiers and the like); functions, sparse arrays and accessor
  properties do not occur in stored records and are not modelled.

  JavaScript compares primitive values by what they are and arrays and objects by
  reference. Where the code compares with \<^verbatim>\<open>===\<close> or looks a key up in a
  \<^verbatim>\<open>Map\<close> the model uses HOL equality, which agrees on every primitive value of
  \<open>jsval\<close>. For the \<^verbatim>\<open>Set\<close> of \<^verbatim>\<open>identifyNovelIssues\<close>, whose members come from
  other records than the value looked up, references are modelled as well: see
  \<open>setHas\<close>.
\<close>

datatype jsval =
    Undefined
  | Null
  | Bool bool
  | Num int
  | Str string
  | Arr "jsval list"
  | Obj "(string \<times> jsval) list"

datatype error = TypeError

text \<open>
  An exception aborts the computation: \<open>Inl\<close> is the thrown error. (The operations
  are \<^verbatim>\<open>async\<close> functions that await nothing but each other: a throw rejects the
  promise they return, a normal return fulfils it.)
\<close>

definition bindE :: "error + 'a \<Rightarrow> ('a \<Rightarrow> error + 'b) \<Rightarrow> error + 'b" where
  "bindE m f = (case m of Inl e \<Rightarrow> Inl e | Inr v \<Rightarrow> f v)"

text \<open>\<^verbatim>\<open>xs.map(f)\<close> where \<open>f\<close> may throw.\<close>

fun mapE :: "('a \<Rightarrow> error + 'b) \<Rightarrow> 'a list \<Rightarrow> error + 'b list" where
  "mapE f [] = Inr []"
| "mapE f (x # xs) = bindE (f x) (\<lambda>y. bindE (mapE f xs) (\<lambda>ys. Inr (y # ys)))"

text \<open>\<^verbatim>\<open>xs.forEach(x => ...)\<close> updating a captured variable, where the body may throw.\<close>

fun foldE :: "('s \<Rightarrow> 'a \<Rightarrow> error + 's) \<Rightarrow> 's \<Rightarrow> 'a list \<Rightarrow> error + 's" where
  "foldE f s [] = Inr s"
| "foldE f s (x # xs) = bindE (f s x) (\<lambda>s'. foldE f s' xs)"

text \<open>Truthiness (\<^verbatim>\<open>ToBoolean\<close>): what \<^verbatim>\<open>||\<close>, \<^verbatim>\<open>&&\<close>, \<^verbatim>\<open>!\<close> and \<^verbatim>\<open>if\<close> test.\<close>

fun truthy :: "jsval \<Rightarrow> bool" where
  "truthy Undefined = False"
| "truthy Null = False"
| "truthy (Bool b) = b"
| "truthy (Num n) = (n \<noteq> 0)"
| "truthy (Str s) = (s \<noteq> [])"
| "truthy (Arr xs) = True"
| "truthy (Obj kvs) = True"

text \<open>\<^verbatim>\<open>v === undefined || v === null\<close>: where \<^verbatim>\<open>?.\<close> short-circuits.\<close>

fun nullish :: "jsval \<Rightarrow> bool" where
  "nullish Undefined = True"
| "nullish Null = True"
| "nullish v = False"

text \<open>
  Property read \<^verbatim>\<open>v.k\<close>. Reading a property of \<^verbatim>\<open>undefined\<close> or \<^verbatim>\<open>null\<close> throws a
  TypeError. The names read by the detector (\<^verbatim>\<open>findings\<close>, \<^verbatim>\<open>phases\<close>,
  \<^verbatim>\<open>presetAnalysis\<close>, \<^verbatim>\<open>type\<close>, \<^verbatim>\<open>statute\<close>, \<^verbatim>\<open>severity\<close>, \<^verbatim>\<open>description\<close>,
  \<^verbatim>\<open>timestamp\<close>, \<^verbatim>\<open>id\<close>) are not members of any built-in prototype, so on a string,
  number, boolean or array the read gives \<^verbatim>\<open>undefined\<close>.
\<close>

fun get :: "jsval \<Rightarrow> string \<Rightarrow> error + jsval" where
  "get Undefined k = Inl TypeError"
| "get Null k = Inl TypeError"
| "get (Obj kvs) k = Inr (case map_of kvs k of None \<Rightarrow> Undefined | Some v \<Rightarrow> v)"
| "get v k = Inr Undefined"

text \<open>Decimal numerals, for \<^verbatim>\<open>ToString\<close> of a number and for \<^verbatim>\<open>toFixed\<close>.\<close>

definition digit :: "nat \<Rightarrow> char" where
  "digit d = char_of (48 + d)"

fun show_nat :: "nat \<Rightarrow> string" where
  "show_nat n = (if n < 10 then [digit n] else show_nat (n div 10) @ [digit (n mod 10)])"

definition show_int :: "int \<Rightarrow> string" where
  "show_int i = (if i < 0 then CHR ''-'' # show_nat (nat (- i)) else show_nat (nat i))"

fun join :: "string \<Rightarrow> string list \<Rightarrow> string" where
  "join sep [] = []"
| "join sep [s] = s"
| "join sep (s # t # ss) = s @ sep @ join sep (t # ss)"

text \<open>
  \<^verbatim>\<open>ToString\<close>, as a template literal \<^verbatim>\<open>`${v}`\<close> and a computed property name
  \<^verbatim>\<open>o[v]\<close> apply it. An array is joined with commas, its \<^verbatim>\<open>undefined\<close> and
  \<^verbatim>\<open>null\<close> elements printing as the empty string. An object is converted by its
  \<^verbatim>\<open>toString\<close> method: the inherited one gives \<^verbatim>\<open>[object Object]\<close>; an own property
  \<^verbatim>\<open>toString\<close> hides it and, not being a function, is passed over, after which
  \<^verbatim>\<open>valueOf\<close> yields no primitive either and a TypeError is thrown.
  (Integers print in decimal below \<open>10\<^sup>2\<^sup>1\<close>; properties named by symbols are not
  modelled.)
\<close>

fun toStr :: "jsval \<Rightarrow> error + string"
  and elementStrs :: "jsval list \<Rightarrow> error + string list" where
  "toStr Undefined = Inr ''undefined''"
| "toStr Null = Inr ''null''"
| "toStr (Bool b) = Inr (if b then ''true'' else ''false'')"
| "toStr (Num n) = Inr (show_int n)"
| "toStr (Str s) = Inr s"
| "toStr (Arr xs) = bindE (elementStrs xs) (\<lambda>ss. Inr (join '','' ss))"
| "toStr (Obj kvs) =
     (if map_of kvs ''toString'' = None then Inr ''[object Object]'' else Inl TypeError)"
| "elementStrs [] = Inr []"
| "elementStrs (v # vs) =
     bindE (if nullish v then Inr [] else toStr v) (\<lambda>s.
     bindE (elementStrs vs) (\<lambda>ss. Inr (s # ss)))"


section \<open>Finding extraction\<close>

text \<open>
  Every operation of the detector starts from the same expression:
  \<^verbatim>\<open>a.findings || a.phases?.presetAnalysis?.flatMap(p => p.findings || []) || []\<close>
  and then calls an array method (\<^verbatim>\<open>forEach\<close>, \<^verbatim>\<open>filter\<close>) on its value.
\<close>

text \<open>
  The callback \<^verbatim>\<open>p => p.findings || []\<close> together with the one-level flattening
  of \<^verbatim>\<open>flatMap\<close>: an array result is spliced in, any other value is kept as one element.
\<close>

definition presetFindings :: "jsval \<Rightarrow> error + jsval list" where
  "presetFindings p =
     bindE (get p ''findings'') (\<lambda>f.
       Inr (if truthy f then (case f of Arr xs \<Rightarrow> xs | _ \<Rightarrow> [f]) else []))"

text \<open>\<^verbatim>\<open>a.phases?.presetAnalysis?.flatMap(...)\<close>; calling \<^verbatim>\<open>flatMap\<close> on a value
  that is not an array throws.\<close>

definition nestedFindings :: "jsval \<Rightarrow> error + jsval" where
  "nestedFindings a =
     bindE (get a ''phases'') (\<lambda>ph.
       if nullish ph then Inr Undefined
       else bindE (get ph ''presetAnalysis'') (\<lambda>pa.
         if nullish pa then Inr Undefined
         else (case pa of
                 Arr ps \<Rightarrow> bindE (mapE presetFindings ps) (\<lambda>fss. Inr (Arr (concat fss)))
               | _ \<Rightarrow> Inl TypeError)))"

definition findingsExpr :: "jsval \<Rightarrow> error + jsval" where
  "findingsExpr a =
     bindE (get a ''findings'') (\<lambda>f.
       if truthy f then Inr f
       else bindE (nestedFindings a) (\<lambda>n.
         Inr (if truthy n then n else Arr [])))"

text \<open>Calling \<^verbatim>\<open>forEach\<close> or \<^verbatim>\<open>filter\<close> on the value: only an array has them.\<close>

definition arrayMethod :: "jsval \<Rightarrow> error + jsval list" where
  "arrayMethod v = (case v of Arr xs \<Rightarrow> Inr xs | _ \<Rightarrow> Inl TypeError)"

definition extractFindings :: "jsval \<Rightarrow> error + jsval list" where
  "extractFindings a = bindE (findingsExpr a) arrayMethod"


section \<open>Library functions\<close>

text \<open>
  \<^verbatim>\<open>Array.prototype.sort\<close> with a comparator is stable. For a comparator that orders
  the elements consistently (all comparators below, except the one of
  \<^verbatim>\<open>prioritizeDefects\<close>, which is left out for that reason) the result is the stable
  insertion sort: \<open>x\<close> goes before the first \<open>y\<close> with \<open>cmp x y \<le> 0\<close>.
\<close>

fun insertBy :: "('a \<Rightarrow> 'a \<Rightarrow> rat) \<Rightarrow> 'a \<Rightarrow> 'a list \<Rightarrow> 'a list" where
  "insertBy cmp x [] = [x]"
| "insertBy cmp x (y # ys) = (if cmp x y \<le> 0 then x # y # ys else y # insertBy cmp x ys)"

fun sortBy :: "('a \<Rightarrow> 'a \<Rightarrow> rat) \<Rightarrow> 'a list \<Rightarrow> 'a list" where
  "sortBy cmp [] = []"
| "sortBy cmp (x # xs) = insertBy cmp x (sortBy cmp xs)"

text \<open>\<^verbatim>\<open>s.toLowerCase()\<close> and \<^verbatim>\<open>s.includes(pat)\<close>. The patterns searched for are
  ASCII; no character outside ASCII lower-cases to a character of one of them that
  could complete a match, so mapping \<open>A\<close>--\<open>Z\<close> is enough.\<close>

definition lowerChar :: "char \<Rightarrow> char" where
  "lowerChar c = (let n = (of_char c :: nat) in if 65 \<le> n \<and> n \<le> 90 then char_of (n + 32) else c)"

definition toLowerCase :: "string \<Rightarrow> string" where
  "toLowerCase s = map lowerChar s"

fun includesStr :: "string \<Rightarrow> string \<Rightarrow> bool" where
  "includesStr [] pat = (pat = [])"
| "includesStr (c # cs) pat = (take (length pat) (c # cs) = pat \<or> includesStr cs pat)"

text \<open>\<^verbatim>\<open>xs.slice(-n)\<close>: the last \<open>n\<close> elements, or all of them.\<close>

definition sliceLast :: "nat \<Rightarrow> 'a list \<Rightarrow> 'a list" where
  "sliceLast n xs = drop (length xs - n) xs"

text \<open>
  Numbers computed by the detector are quotients and products of counts. They are
  modelled as exact rationals, with the results of a division by zero kept apart
  (\<open>jsnum\<close>); the rounding of IEEE doubles is not modelled. A double is within a
  relative error of \<open>2\<^sup>-\<^sup>5\<^sup>3\<close> of the exact value, so a result can differ from
  the model's only where the exact value lies on the boundary of a rounding or of a
  comparison (such as the quotient 3/20 under \<^verbatim>\<open>toFixed(1)\<close>); no statement below
  depends on what happens at such a value.

  A string produced by \<^verbatim>\<open>x.toFixed(1)\<close> is represented by its number of tenths
  (the nearest one, the larger one on a tie; for a negative \<open>x\<close> the sign is split
  off first): \<open>fixed1_text\<close> is the string and \<open>fixed1_value\<close> the number it
  converts back to.
\<close>

datatype jsnum = Fin rat | Infinity | NegInfinity | NaN

definition jsdiv :: "rat \<Rightarrow> rat \<Rightarrow> jsnum" where
  "jsdiv a b = (if b \<noteq> 0 then Fin (a / b)
                else if 0 < a then Infinity else if a < 0 then NegInfinity else NaN)"

fun jsminus :: "jsnum \<Rightarrow> jsnum \<Rightarrow> jsnum" where
  "jsminus (Fin a) (Fin b) = Fin (a - b)"
| "jsminus NaN y = NaN"
| "jsminus x NaN = NaN"
| "jsminus Infinity Infinity = NaN"
| "jsminus NegInfinity NegInfinity = NaN"
| "jsminus Infinity y = Infinity"
| "jsminus NegInfinity y = NegInfinity"
| "jsminus (Fin a) Infinity = NegInfinity"
| "jsminus (Fin a) NegInfinity = Infinity"

text \<open>\<^verbatim>\<open>x * 100\<close>.\<close>

fun jstimes100 :: "jsnum \<Rightarrow> jsnum" where
  "jstimes100 (Fin a) = Fin (a * 100)"
| "jstimes100 x = x"

text \<open>\<^verbatim>\<open>Math.round\<close>: the nearest integer, the larger one on a tie.\<close>

fun mathRound :: "jsnum \<Rightarrow> jsnum" where
  "mathRound (Fin a) = Fin (of_int \<lfloor>a + 1 / 2\<rfloor>)"
| "mathRound x = x"

definition toFixed1 :: "rat \<Rightarrow> int" where
  "toFixed1 x = (if x < 0 then - \<lfloor>- x * 10 + 1 / 2\<rfloor> else \<lfloor>x * 10 + 1 / 2\<rfloor>)"

definition fixed1_text :: "int \<Rightarrow> string" where
  "fixed1_text t =
     (if t < 0 then ''-'' else []) @ show_nat (nat \<bar>t\<bar> div 10) @ ''.'' @ [digit (nat \<bar>t\<bar> mod 10)]"

definition fixed1_value :: "int \<Rightarrow> rat" where
  "fixed1_value t = of_int t / 10"


section \<open>Recurring defects\<close>

record group =
  g_type :: jsval
  g_statute :: jsval
  g_severity :: jsval
  g_count :: nat
  g_firstSeen :: jsval
  g_lastSeen :: jsval
  g_descriptions :: "jsval list"
  g_analysisIds :: "jsval list"

text \<open>
  \<^verbatim>\<open>defectCounts\<close> is a plain object used as a dictionary. Its keys all contain
  \<open>|\<close>, so none is an array index or a name inherited from \<^verbatim>\<open>Object.prototype\<close>, and
  \<^verbatim>\<open>Object.values\<close> lists the groups in insertion order: an association list that
  is extended at the end.
\<close>

type_synonym defectCounts = "(string \<times> group) list"

text \<open>The key \<^verbatim>\<open>`${defect.type}|${defect.statute || 'unknown'}`\<close>; either conversion
  may throw.\<close>

definition defectKey :: "jsval \<Rightarrow> jsval \<Rightarrow> error + string" where
  "defectKey ty st =
     bindE (toStr ty) (\<lambda>t.
     bindE (toStr (if truthy st then st else Str ''unknown'')) (\<lambda>s.
       Inr (t @ ''|'' @ s)))"

definition updateGroup :: "string \<Rightarrow> (group \<Rightarrow> group) \<Rightarrow> defectCounts \<Rightarrow> defectCounts" where
  "updateGroup key f dc = map (\<lambda>(k, g). if k = key then (k, f g) else (k, g)) dc"

text \<open>The body of the inner \<^verbatim>\<open>findings.forEach(defect => ...)\<close>.\<close>

definition countDefect :: "jsval \<Rightarrow> defectCounts \<Rightarrow> jsval \<Rightarrow> error + defectCounts" where
  "countDefect analysis dc defect =
     bindE (get defect ''type'') (\<lambda>ty.
     bindE (get defect ''statute'') (\<lambda>st.
     bindE (defectKey ty st) (\<lambda>key.
     bindE (get defect ''severity'') (\<lambda>sev.
     bindE (get defect ''description'') (\<lambda>descr.
     bindE (get analysis ''timestamp'') (\<lambda>ts.
     bindE (get analysis ''id'') (\<lambda>ident.
       let dc1 = (if map_of dc key = None
                  then dc @ [(key, \<lparr>g_type = ty, g_statute = st, g_severity = sev, g_count = 0,
                                    g_firstSeen = ts, g_lastSeen = ts,
                                    g_descriptions = [], g_analysisIds = []\<rparr>)]
                  else dc)
       in Inr (updateGroup key
                 (\<lambda>g. g\<lparr>g_count := g_count g + 1, g_lastSeen := ts,
                         g_descriptions := g_descriptions g @ [descr],
                         g_analysisIds := g_analysisIds g @ [ident]\<rparr>) dc1))))))))"

text \<open>The body of the outer \<^verbatim>\<open>analyses.forEach(analysis => ...)\<close>.\<close>

definition countAnalysis :: "defectCounts \<Rightarrow> jsval \<Rightarrow> error + defectCounts" where
  "countAnalysis dc analysis =
     bindE (extractFindings analysis) (\<lambda>findings. foldE (countDefect analysis) dc findings)"

definition byCountDesc :: "group \<Rightarrow> group \<Rightarrow> rat" where
  "byCountDesc a b = of_nat (g_count b) - of_nat (g_count a)"

definition findRecurringDefects :: "jsval list \<Rightarrow> error + group list" where
  "findRecurringDefects analyses =
     bindE (foldE countAnalysis [] analyses) (\<lambda>dc.
       Inr (sortBy byCountDesc (filter (\<lambda>d. g_count d \<ge> 3) (map snd dc))))"


section \<open>Trends\<close>

datatype direction = WORSENING | IMPROVING | STABLE

text \<open>
  The result object of \<^verbatim>\<open>analyzeTrends\<close>. \<open>t_percent\<close> is the number printed in
  the message (the STABLE message prints none); \<open>t_firstAvg\<close> and \<open>t_secondAvg\<close>
  are the \<^verbatim>\<open>toFixed(1)\<close> strings.
\<close>

record trend =
  t_direction :: direction
  t_percent :: "jsnum option"
  t_recommendation :: string
  t_severity :: string
  t_firstAvg :: int
  t_secondAvg :: int

datatype trends = InsufficientData nat | Trend trend

text \<open>The callback of \<^verbatim>\<open>recent.map\<close>: the number of HIGH or CRITICAL findings.\<close>

definition severityCount :: "jsval \<Rightarrow> error + nat" where
  "severityCount a =
     bindE (extractFindings a) (\<lambda>findings.
     bindE (mapE (\<lambda>d. get d ''severity'') findings) (\<lambda>sevs.
       Inr (length (filter (\<lambda>s. s = Str ''HIGH'' \<or> s = Str ''CRITICAL'') sevs))))"

text \<open>\<^verbatim>\<open>xs.reduce((a, b) => a + b, 0) / xs.length\<close>; both halves are non-empty
  once three analyses are present.\<close>

definition average :: "nat list \<Rightarrow> rat" where
  "average xs = of_nat (sum_list xs) / of_nat (length xs)"

definition classify :: "rat \<Rightarrow> rat \<Rightarrow> trend" where
  "classify firstAvg secondAvg =
     (if secondAvg > firstAvg * (6 / 5) then
        \<lparr>t_direction = WORSENING,
         t_percent = Some (mathRound (jstimes100 (jsminus (jsdiv secondAvg firstAvg) (Fin 1)))),
         t_recommendation = ''Systematic review of documentation processes recommended'',
         t_severity = ''HIGH'',
         t_firstAvg = toFixed1 firstAvg, t_secondAvg = toFixed1 secondAvg\<rparr>
      else if secondAvg < firstAvg * (4 / 5) \<and> firstAvg > 0 then
        \<lparr>t_direction = IMPROVING,
         t_percent = Some (mathRound (jstimes100 (jsminus (Fin 1) (jsdiv secondAvg firstAvg)))),
         t_recommendation = ''Current processes appear effective - maintain practices'',
         t_severity = ''LOW'',
         t_firstAvg = toFixed1 firstAvg, t_secondAvg = toFixed1 secondAvg\<rparr>
      else
        \<lparr>t_direction = STABLE,
         t_percent = None,
         t_recommendation = ''Continue monitoring'',
         t_severity = ''MEDIUM'',
         t_firstAvg = toFixed1 firstAvg, t_secondAvg = toFixed1 secondAvg\<rparr>)"

definition analyzeTrends :: "jsval list \<Rightarrow> error + trends" where
  "analyzeTrends analyses =
     (if length analyses < 3 then Inr (InsufficientData (length analyses))
      else
        bindE (mapE severityCount (sliceLast 5 analyses)) (\<lambda>severityCounts.
          let firstHalf = take (length severityCounts div 2) severityCounts;
              secondHalf = drop (length severityCounts div 2) severityCounts
          in Inr (Trend (classify (average firstHalf) (average secondHalf)))))"


section \<open>Recommendations\<close>

text \<open>
  The recommendation text is one of four templates, filled with the count, type and
  statute of the group; the record keeps which template it is. Filling a template
  cannot throw: the generic one, the only one to print the type and the statute, is
  reached for a type that is a string or falsy, and the statute of a group, if
  truthy, has been converted to a string before, for the key of the group.
\<close>

datatype template = Checklist55D | Training49 | Caution464 | GenericPattern

record recommendation =
  r_issue :: jsval
  r_frequency :: nat
  r_severity :: jsval
  r_priority :: nat
  r_template :: template
  r_statute :: jsval

text \<open>
  \<^verbatim>\<open>defect.type && defect.type.toLowerCase().includes(p) && defect.type.toLowerCase().includes(q)\<close>:
  a truthy type that is not a string has no \<^verbatim>\<open>toLowerCase\<close>, and the call throws.
\<close>

definition matchRule :: "jsval \<Rightarrow> string \<Rightarrow> string \<Rightarrow> error + bool" where
  "matchRule ty p q =
     (if \<not> truthy ty then Inr False
      else (case ty of
              Str s \<Rightarrow> Inr (includesStr (toLowerCase s) p \<and> includesStr (toLowerCase s) q)
            | _ \<Rightarrow> Inl TypeError))"

definition specialized :: "group \<Rightarrow> jsval \<Rightarrow> template \<Rightarrow> jsval \<Rightarrow> recommendation" where
  "specialized defect sev tpl statute =
     \<lparr>r_issue = g_type defect, r_frequency = g_count defect, r_severity = sev,
      r_priority = 1, r_template = tpl, r_statute = statute\<rparr>"

definition generic :: "group \<Rightarrow> recommendation" where
  "generic defect =
     \<lparr>r_issue = g_type defect, r_frequency = g_count defect, r_severity = g_severity defect,
      r_priority = 2, r_template = GenericPattern,
      r_statute = (if truthy (g_statute defect) then g_statute defect else Str ''Unknown'')\<rparr>"

text \<open>The body of \<^verbatim>\<open>recurring.forEach(defect => ...)\<close>.\<close>

definition recommend :: "recommendation list \<Rightarrow> group \<Rightarrow> error + recommendation list" where
  "recommend recs defect =
     bindE (matchRule (g_type defect) ''55d'' ''directions'') (\<lambda>m1.
       let recs1 = (if m1 then recs @ [specialized defect (Str ''HIGH'') Checklist55D
                                        (Str ''Road Safety Act 1986 s.55D'')] else recs) in
     bindE (matchRule (g_type defect) ''49'' ''reason to believe'') (\<lambda>m2.
       let recs2 = (if m2 then recs1 @ [specialized defect (Str ''HIGH'') Training49
                                         (Str ''Road Safety Act 1986 s.49'')] else recs1) in
     bindE (matchRule (g_type defect) ''464'' ''caution'') (\<lambda>m3.
       let recs3 = (if m3 then recs2 @ [specialized defect (Str ''CRITICAL'') Caution464
                                         (Str ''Crimes Act 1958 s.464'')] else recs2) in
       Inr (if find (\<lambda>r. r_issue r = g_type defect) recs3 = None \<and> g_count defect \<ge> 5
            then recs3 @ [generic defect] else recs3))))"

text \<open>\<^verbatim>\<open>(a, b) => a.priority - b.priority || b.frequency - a.frequency\<close>.\<close>

definition byPriority :: "recommendation \<Rightarrow> recommendation \<Rightarrow> rat" where
  "byPriority a b =
     (if of_nat (r_priority a) - of_nat (r_priority b) \<noteq> (0 :: rat)
      then of_nat (r_priority a) - of_nat (r_priority b)
      else of_nat (r_frequency b) - of_nat (r_frequency a))"

definition generateRecommendations :: "jsval list \<Rightarrow> error + recommendation list" where
  "generateRecommendations analyses =
     bindE (findRecurringDefects analyses) (\<lambda>recurring.
     bindE (foldE recommend [] recurring) (\<lambda>recommendations.
       Inr (sortBy byPriority recommendations)))"


section \<open>Novel issues\<close>

text \<open>
  The entries of the result. \<open>n_message\<close> is the text of the type that the
  template literal of \<^verbatim>\<open>message\<close> puts between the quotes.
\<close>

record novel =
  n_type :: jsval
  n_severity :: jsval
  n_description :: jsval
  n_statute :: jsval
  n_isNew :: bool
  n_message :: string

text \<open>\<^verbatim>\<open>xs.filter(p)\<close> where \<open>p\<close> may throw.\<close>

fun filterE :: "('a \<Rightarrow> error + bool) \<Rightarrow> 'a list \<Rightarrow> error + 'a list" where
  "filterE p [] = Inr []"
| "filterE p (x # xs) =
     bindE (p x) (\<lambda>b. bindE (filterE p xs) (\<lambda>ys. Inr (if b then x # ys else ys)))"

text \<open>
  \<^verbatim>\<open>previousIssueTypes\<close> is a \<^verbatim>\<open>Set\<close>. \<^verbatim>\<open>has\<close> finds a primitive value by what
  it is and an array or object by reference. The value looked up is the type of a
  finding of the last record and the members are types of findings of the earlier
  records; the records of a history are separate values (read from the store, or
  written as literals), so an array or object looked up is none of the members. The
  set of the model holds the values added, and \<open>setHas\<close> is \<^verbatim>\<open>has\<close>.
\<close>

fun primitive :: "jsval \<Rightarrow> bool" where
  "primitive (Arr xs) = False"
| "primitive (Obj kvs) = False"
| "primitive v = True"

definition setHas :: "jsval set \<Rightarrow> jsval \<Rightarrow> bool" where
  "setHas members v = (primitive v \<and> v \<in> members)"

text \<open>The body of \<^verbatim>\<open>analyses.slice(0, -1).forEach(analysis => ...)\<close>, adding to the set.\<close>

definition addIssueTypes :: "jsval set \<Rightarrow> jsval \<Rightarrow> error + jsval set" where
  "addIssueTypes previousIssueTypes analysis =
     bindE (extractFindings analysis) (\<lambda>findings.
       foldE (\<lambda>seen f. bindE (get f ''type'') (\<lambda>t. Inr (insert t seen)))
             previousIssueTypes findings)"

definition novelEntry :: "jsval \<Rightarrow> error + novel" where
  "novelEntry issue =
     bindE (get issue ''type'') (\<lambda>ty.
     bindE (get issue ''severity'') (\<lambda>sev.
     bindE (get issue ''description'') (\<lambda>descr.
     bindE (get issue ''statute'') (\<lambda>st.
     bindE (toStr ty) (\<lambda>text.
       Inr \<lparr>n_type = ty, n_severity = sev, n_description = descr, n_statute = st,
            n_isNew = True, n_message = text\<rparr>)))))"

definition identifyNovelIssues :: "jsval list \<Rightarrow> error + novel list" where
  "identifyNovelIssues analyses =
     (if length analyses = 0 then Inr []
      else
        bindE (extractFindings (last analyses)) (\<lambda>latestFindings.
        bindE (foldE addIssueTypes {} (butlast analyses)) (\<lambda>previousIssueTypes.
        bindE (filterE (\<lambda>finding. bindE (get finding ''type'')
                          (\<lambda>t. Inr (\<not> setHas previousIssueTypes t))) latestFindings) (\<lambda>novelIssues.
          mapE novelEntry novelIssues))))"


section \<open>Compliance metrics\<close>

text \<open>
  The result object of \<^verbatim>\<open>calculateCompliance\<close>. The object returned for an empty
  history has no \<^verbatim>\<open>totalIssues\<close>, \<^verbatim>\<open>criticalIssues\<close> and \<^verbatim>\<open>highIssues\<close>
  (\<open>None\<close>). The tally behind \<^verbatim>\<open>mostCommonIssue\<close> and \<^verbatim>\<open>mostCommonIssueCount\<close>
  takes no part in the other fields and is left out of the record; what is kept of
  it is the conversion of the type to a property name in
  \<^verbatim>\<open>issueTypeCounts[f.type]\<close>, which may throw.
\<close>

record metrics =
  totalAnalyses :: nat
  totalIssues :: "nat option"
  averageIssuesPerDoc :: rat
  complianceRate :: rat
  criticalIssues :: "nat option"
  highIssues :: "nat option"

text \<open>The counters \<^verbatim>\<open>totalIssues\<close>, \<^verbatim>\<open>criticalCount\<close>, \<^verbatim>\<open>highCount\<close>.\<close>

type_synonym counters = "nat \<times> nat \<times> nat"

text \<open>The body of \<^verbatim>\<open>findings.forEach(f => ...)\<close>, and the body of
  \<^verbatim>\<open>analyses.forEach(analysis => ...)\<close>.\<close>

definition tallyFinding :: "counters \<Rightarrow> jsval \<Rightarrow> error + counters" where
  "tallyFinding c f =
     (case c of (issues, critical, high) \<Rightarrow>
        bindE (get f ''severity'') (\<lambda>sev.
        bindE (get f ''type'') (\<lambda>ty.
        bindE (toStr ty) (\<lambda>name.
          Inr (issues, (if sev = Str ''CRITICAL'' then critical + 1 else critical),
                       (if sev = Str ''HIGH'' then high + 1 else high))))))"

definition tally :: "counters \<Rightarrow> jsval \<Rightarrow> error + counters" where
  "tally c analysis =
     (case c of (issues, critical, high) \<Rightarrow>
        bindE (extractFindings analysis) (\<lambda>findings.
          foldE tallyFinding (issues + length findings, critical, high) findings))"

definition calculateCompliance :: "jsval list \<Rightarrow> error + metrics" where
  "calculateCompliance analyses =
     (if length analyses = 0 then
        Inr \<lparr>totalAnalyses = 0, totalIssues = None, averageIssuesPerDoc = 0,
             complianceRate = 100, criticalIssues = None, highIssues = None\<rparr>
      else
        bindE (foldE tally (0, 0, 0) analyses) (\<lambda>(issues, critical, high).
          let avgIssues = toFixed1 (of_nat issues / of_nat (length analyses));
              complianceScore = max 0 (100 - fixed1_value avgIssues * 5)
          in Inr \<lparr>totalAnalyses = length analyses, totalIssues = Some issues,
                  averageIssuesPerDoc = fixed1_value avgIssues,
                  complianceRate = fixed1_value (toFixed1 complianceScore),
                  criticalIssues = Some critical, highIssues = Some high\<rparr>))"


section \<open>Learning from outcomes\<close>

record audit =
  a_date :: jsval
  a_outcome :: jsval
  a_courtResponse :: jsval
  a_effectiveArguments :: jsval

record stats =
  s_type :: jsval
  totalRaised :: nat
  successful :: nat
  unsuccessful :: nat
  outcomes :: "audit list"

text \<open>
  \<^verbatim>\<open>this.successRates\<close> is a \<^verbatim>\<open>Map\<close>: it keeps insertion order, and \<^verbatim>\<open>set\<close> on a
  new key appends. The other field of the detector, \<^verbatim>\<open>patterns\<close>, is read by none of
  the operations here.
\<close>

type_synonym successRates = "(jsval \<times> stats) list"

definition reset :: successRates where
  "reset = []"

definition isSuccessful :: "jsval \<Rightarrow> bool" where
  "isSuccessful out =
     (out = Str ''evidence excluded'' \<or> out = Str ''application successful'' \<or>
      out = Str ''case dismissed'')"

text \<open>The body of \<^verbatim>\<open>outcome.defectsRaised.forEach(defectType => ...)\<close>.\<close>

definition raiseDefect :: "jsval \<Rightarrow> successRates \<Rightarrow> jsval \<Rightarrow> error + successRates" where
  "raiseDefect outcome sr defectType =
     bindE (get outcome ''outcome'') (\<lambda>out.
     bindE (get outcome ''date'') (\<lambda>date.
     bindE (get outcome ''courtResponse'') (\<lambda>response.
     bindE (get outcome ''effectiveArguments'') (\<lambda>arguments.
       let sr1 = (if map_of sr defectType = None
                  then sr @ [(defectType, \<lparr>s_type = defectType, totalRaised = 0, successful = 0,
                                           unsuccessful = 0, outcomes = []\<rparr>)]
                  else sr)
       in Inr (map (\<lambda>(k, st).
                 if k = defectType
                 then (k, st\<lparr>totalRaised := totalRaised st + 1,
                             successful := (if isSuccessful out then successful st + 1
                                            else successful st),
                             unsuccessful := (if isSuccessful out then unsuccessful st
                                              else unsuccessful st + 1),
                             outcomes := outcomes st @
                               [\<lparr>a_date = date, a_outcome = out, a_courtResponse = response,
                                 a_effectiveArguments = arguments\<rparr>]\<rparr>)
                 else (k, st)) sr1)))))"

text \<open>\<^verbatim>\<open>if (outcome.defectsRaised && Array.isArray(outcome.defectsRaised))\<close>.\<close>

definition learnFromOutcome :: "successRates \<Rightarrow> jsval \<Rightarrow> jsval \<Rightarrow> error + successRates" where
  "learnFromOutcome sr analysisId outcome =
     bindE (get outcome ''defectsRaised'') (\<lambda>raised.
       case raised of
         Arr defectTypes \<Rightarrow> foldE (raiseDefect outcome) sr defectTypes
       | _ \<Rightarrow> Inr sr)"

text \<open>
  The states the detector can be in: after \<^verbatim>\<open>reset()\<close>, and after a call of
  \<^verbatim>\<open>learnFromOutcome\<close> that returned. (A call that throws does so at its first
  property read and leaves the map as it was.)
\<close>

inductive reachable :: "successRates \<Rightarrow> bool" where
  initial: "reachable reset"
| learned: "reachable sr \<Longrightarrow> learnFromOutcome sr analysisId outcome = Inr sr' \<Longrightarrow> reachable sr'"

text \<open>
  \<^verbatim>\<open>successRate\<close> in the objects of \<^verbatim>\<open>getSuccessRates\<close>: the string of
  \<^verbatim>\<open>toFixed(1)\<close>, or the number \<^verbatim>\<open>0\<close>.
\<close>

datatype rate = RateFixed int | RateZero

fun rateText :: "rate \<Rightarrow> string" where
  "rateText (RateFixed t) = fixed1_text t"
| "rateText RateZero = ''0''"

text \<open>The number a rate converts to under \<^verbatim>\<open>-\<close>.\<close>

fun rateNumber :: "rate \<Rightarrow> rat" where
  "rateNumber (RateFixed t) = fixed1_value t"
| "rateNumber RateZero = 0"

text \<open>\<^verbatim>\<open>{...stats, successRate: ...}\<close>.\<close>

record rated = stats +
  successRate :: rate

definition percentage :: "stats \<Rightarrow> int" where
  "percentage st = toFixed1 (of_nat (successful st) / of_nat (totalRaised st) * 100)"

definition withRate :: "stats \<Rightarrow> rated" where
  "withRate st =
     stats.extend st
       (rated.fields (if totalRaised st > 0 then RateFixed (percentage st) else RateZero))"

definition byRateDesc :: "rated \<Rightarrow> rated \<Rightarrow> rat" where
  "byRateDesc a b = rateNumber (successRate b) - rateNumber (successRate a)"

definition getSuccessRates :: "successRates \<Rightarrow> rated list" where
  "getSuccessRates sr = sortBy byRateDesc (map withRate (map snd sr))"


section \<open>Prioritising defects\<close>

datatype advisory = StrongDefect | EnsureStrongEvidence | NoHistoricalData

text \<open>
  The objects built by the \<^verbatim>\<open>map\<close> callback of \<^verbatim>\<open>prioritizeDefects\<close>:
  \<open>p_defect\<close> is the defect spread into the object, \<open>p_successRate\<close> the
  \<^verbatim>\<open>toFixed(1)\<close> string, \<open>p_recommendation\<close> which of the three advisory texts.
\<close>

record prioritized =
  p_defect :: jsval
  hasHistoricalData :: bool
  p_successRate :: "int option"
  timesRaised :: "nat option"
  p_recommendation :: advisory

text \<open>
  \<^verbatim>\<open>successInfo.successRate\<close>, read from an object stored in the map. The objects
  stored there are created by \<^verbatim>\<open>learnFromOutcome\<close> with the properties \<^verbatim>\<open>type\<close>,
  \<^verbatim>\<open>totalRaised\<close>, \<^verbatim>\<open>successful\<close>, \<^verbatim>\<open>unsuccessful\<close> and \<^verbatim>\<open>outcomes\<close>, and no
  code assigns another one (\<^verbatim>\<open>getSuccessRates\<close> adds \<^verbatim>\<open>successRate\<close> to copies):
  the read gives \<^verbatim>\<open>undefined\<close>, here \<open>None\<close>.
\<close>

definition storedSuccessRate :: "stats \<Rightarrow> rat option" where
  "storedSuccessRate successInfo = None"

text \<open>\<^verbatim>\<open>v > 60\<close>: \<^verbatim>\<open>undefined\<close> converts to \<^verbatim>\<open>NaN\<close>, and the comparison is false.\<close>

definition greaterThan :: "rat option \<Rightarrow> rat \<Rightarrow> bool" where
  "greaterThan v c = (case v of None \<Rightarrow> False | Some x \<Rightarrow> x > c)"

definition prioritize :: "successRates \<Rightarrow> jsval \<Rightarrow> error + prioritized" where
  "prioritize sr defect =
     bindE (get defect ''type'') (\<lambda>ty.
       Inr (case map_of sr ty of
              Some successInfo \<Rightarrow>
                if totalRaised successInfo \<ge> 3 then
                  \<lparr>p_defect = defect, hasHistoricalData = True,
                   p_successRate = Some (percentage successInfo),
                   timesRaised = Some (totalRaised successInfo),
                   p_recommendation = (if greaterThan (storedSuccessRate successInfo) 60
                                       then StrongDefect else EnsureStrongEvidence)\<rparr>
                else
                  \<lparr>p_defect = defect, hasHistoricalData = False, p_successRate = None,
                   timesRaised = None, p_recommendation = NoHistoricalData\<rparr>
            | None \<Rightarrow>
                \<lparr>p_defect = defect, hasHistoricalData = False, p_successRate = None,
                 timesRaised = None, p_recommendation = NoHistoricalData\<rparr>))"

text \<open>
  \<^verbatim>\<open>prioritizeDefects\<close> up to the order of its result: the final \<^verbatim>\<open>sort\<close> only
  permutes the objects, and its comparator (equal unless both have historical data)
  is not a consistent ordering, so the order it yields depends on the engine.
\<close>

definition prioritizeDefects :: "successRates \<Rightarrow> jsval list \<Rightarrow> error + prioritized list" where
  "prioritizeDefects sr currentDefects = mapE (prioritize sr) currentDefects"


section \<open>Notions used in the statements\<close>

text \<open>
  The value of a property, \<^verbatim>\<open>undefined\<close> where the read would throw, and the findings
  of a record, none where the extraction would throw. Statements use them for
  records on which the operation in question returns, where they are what the code
  reads.
\<close>

definition field :: "jsval \<Rightarrow> string \<Rightarrow> jsval" where
  "field v k = (case get v k of Inr w \<Rightarrow> w | Inl e \<Rightarrow> Undefined)"

definition findingsOf :: "jsval \<Rightarrow> jsval list" where
  "findingsOf a = (case extractFindings a of Inr fs \<Rightarrow> fs | Inl e \<Rightarrow> [])"

text \<open>
  The extraction as the specification words it: the findings of the \<^verbatim>\<open>findings\<close>
  field merged with those nested under \<^verbatim>\<open>phases.presetAnalysis[*].findings\<close>, in
  encounter order and without deduplication.
\<close>

definition spec_mergedFindings :: "jsval \<Rightarrow> jsval list" where
  "spec_mergedFindings a =
     (case get a ''findings'' of Inr (Arr xs) \<Rightarrow> xs | _ \<Rightarrow> []) @
     (case nestedFindings a of Inr (Arr ys) \<Rightarrow> ys | _ \<Rightarrow> [])"

text \<open>
  The number of defect occurrences of a history that carry a given pair of type and
  statute (or \<open>unknown\<close>), as the specification counts them.
\<close>

definition statuteOrUnknown :: "jsval \<Rightarrow> jsval" where
  "statuteOrUnknown d = (if truthy (field d ''statute'') then field d ''statute'' else Str ''unknown'')"

definition spec_pairCount :: "jsval list \<Rightarrow> jsval \<Rightarrow> jsval \<Rightarrow> nat" where
  "spec_pairCount analyses ty st =
     length (filter (\<lambda>d. field d ''type'' = ty \<and> statuteOrUnknown d = st)
               (concat (map findingsOf analyses)))"

text \<open>
  The text of a value, empty where the conversion would throw. Statements use it for
  values whose conversion returns, where it is what the code computes.
\<close>

definition textOf :: "jsval \<Rightarrow> string" where
  "textOf v = (case toStr v of Inr s \<Rightarrow> s | Inl e \<Rightarrow> [])"

text \<open>The grouping key of a defect occurrence and of a group, and the statute
  (or \<open>unknown\<close>) of a group.\<close>

definition keyOf :: "jsval \<Rightarrow> string" where
  "keyOf d = textOf (field d ''type'') @ ''|'' @ textOf (statuteOrUnknown d)"

definition groupStatute :: "group \<Rightarrow> jsval" where
  "groupStatute g = (if truthy (g_statute g) then g_statute g else Str ''unknown'')"

definition groupKey :: "group \<Rightarrow> string" where
  "groupKey g = textOf (g_type g) @ ''|'' @ textOf (groupStatute g)"

text \<open>The first occurrence with a given key.\<close>

definition firstOfKey :: "jsval list \<Rightarrow> string \<Rightarrow> jsval" where
  "firstOfKey ds k = (case find (\<lambda>d. keyOf d = k) ds of Some d \<Rightarrow> d | None \<Rightarrow> Undefined)"

text \<open>
  What the counting loop of \<^verbatim>\<open>findRecurringDefects\<close> maintains: one entry per key
  met so far, whose count is the number of occurrences with that key and whose type
  and statute are those of the first of them.
\<close>

definition counted :: "defectCounts \<Rightarrow> jsval list \<Rightarrow> bool" where
  "counted dc ds =
     (distinct (map fst dc) \<and> fst ` set dc = keyOf ` set ds \<and>
      list_all (\<lambda>(k, g). g_count g = count_list (map keyOf ds) k \<and>
                 g_type g = field (firstOfKey ds k) ''type'' \<and>
                 g_statute g = field (firstOfKey ds k) ''statute'') dc)"


text \<open>
  The values \<^verbatim>\<open>ToString\<close> converts without throwing: every value but an object
  with an own property \<^verbatim>\<open>toString\<close> and an array holding such a value.
\<close>

fun convertible :: "jsval \<Rightarrow> bool" where
  "convertible (Obj kvs) = (map_of kvs ''toString'' = None)"
| "convertible (Arr xs) = list_all convertible xs"
| "convertible v = True"

definition isArray :: "jsval \<Rightarrow> bool" where
  "isArray v = (case v of Arr xs \<Rightarrow> True | _ \<Rightarrow> False)"

text \<open>
  The records the finding extraction returns on. The record is not \<^verbatim>\<open>undefined\<close>
  or \<^verbatim>\<open>null\<close>; its \<^verbatim>\<open>findings\<close>, if truthy, is an array; if \<^verbatim>\<open>findings\<close> is falsy,
  then \<^verbatim>\<open>phases\<close> or \<^verbatim>\<open>phases.presetAnalysis\<close> is \<^verbatim>\<open>undefined\<close> or \<^verbatim>\<open>null\<close>, or
  \<^verbatim>\<open>phases.presetAnalysis\<close> is an array with no element \<^verbatim>\<open>undefined\<close> or \<^verbatim>\<open>null\<close>.
  Nothing else is asked of the shapes: the record and \<^verbatim>\<open>phases\<close> need not be
  objects, and a preset may be any value and hold any \<^verbatim>\<open>findings\<close>.
\<close>

definition wellFormed :: "jsval \<Rightarrow> bool" where
  "wellFormed a =
     (\<not> nullish a \<and>
      (if truthy (field a ''findings'') then isArray (field a ''findings'')
       else nullish (field a ''phases'') \<or>
            nullish (field (field a ''phases'') ''presetAnalysis'') \<or>
            (case field (field a ''phases'') ''presetAnalysis'' of
               Arr ps \<Rightarrow> list_all (\<lambda>p. \<not> nullish p) ps
             | _ \<Rightarrow> False)))"

text \<open>
  A finding the operations can read: it is not \<^verbatim>\<open>undefined\<close> or \<^verbatim>\<open>null\<close>, and its
  type and its statute (or \<open>unknown\<close>) convert to strings. A record all operations
  can read: the extraction returns on it, and every finding it yields can be read.
\<close>

definition readableDefect :: "jsval \<Rightarrow> bool" where
  "readableDefect d =
     (\<not> nullish d \<and> convertible (field d ''type'') \<and> convertible (statuteOrUnknown d))"

definition okRecord :: "jsval \<Rightarrow> bool" where
  "okRecord a = (wellFormed a \<and> list_all readableDefect (findingsOf a))"

text \<open>
  The types \<^verbatim>\<open>generateRecommendations\<close> can match against its rules: a string, or
  a falsy value. The type of a group is the type of the first occurrence with the
  key of the group, so what is asked of a history is that the first occurrence of
  every key that occurs at least three times has such a type.
\<close>

definition strOrFalsy :: "jsval \<Rightarrow> bool" where
  "strOrFalsy ty = (case ty of Str s \<Rightarrow> True | _ \<Rightarrow> \<not> truthy ty)"

definition recurringTypesOk :: "jsval list \<Rightarrow> bool" where
  "recurringTypesOk h =
     (let ds = concat (map findingsOf h)
      in list_all (\<lambda>d. count_list (map keyOf ds) (keyOf d) < 3 \<or>
                        strOrFalsy (field (firstOfKey ds (keyOf d)) ''type'')) ds)"

text \<open>The entry built for a novel finding, and the types seen in the earlier records.\<close>

definition novelOf :: "jsval \<Rightarrow> novel" where
  "novelOf issue =
     \<lparr>n_type = field issue ''type'', n_severity = field issue ''severity'',
      n_description = field issue ''description'', n_statute = field issue ''statute'',
      n_isNew = True, n_message = textOf (field issue ''type'')\<rparr>"

definition earlierTypes :: "jsval list \<Rightarrow> jsval set" where
  "earlierTypes analyses =
     (\<lambda>f. field f ''type'') ` set (concat (map findingsOf (butlast analyses)))"

text \<open>
  The novel occurrences as the specification words them: the defect occurrences of
  the last record, in the specification's sense of the findings of a record
  (\<open>spec_mergedFindings\<close>), whose type is not among the types of the defect occurrences
  of the earlier records.
\<close>

definition spec_novelOccurrences :: "jsval list \<Rightarrow> jsval list" where
  "spec_novelOccurrences analyses =
     filter (\<lambda>d. field d ''type'' \<notin>
                  set (map (\<lambda>f. field f ''type'')
                         (concat (map spec_mergedFindings (butlast analyses)))))
       (spec_mergedFindings (last analyses))"

text \<open>The number of findings of a history.\<close>

definition issueCount :: "jsval list \<Rightarrow> nat" where
  "issueCount analyses = length (concat (map findingsOf analyses))"

text \<open>
  The condition of one of the three specialized rules holds for a type; the order
  the result of \<^verbatim>\<open>generateRecommendations\<close> is claimed to have; and what every
  recommendation pushed satisfies.
\<close>

definition specializedRule :: "jsval \<Rightarrow> bool" where
  "specializedRule ty =
     (matchRule ty ''55d'' ''directions'' = Inr True \<or>
      matchRule ty ''49'' ''reason to believe'' = Inr True \<or>
      matchRule ty ''464'' ''caution'' = Inr True)"

definition precedes :: "recommendation \<Rightarrow> recommendation \<Rightarrow> bool" where
  "precedes a b =
     (r_priority a < r_priority b \<or>
      (r_priority a = r_priority b \<and> r_frequency b \<le> r_frequency a))"

definition justified :: "recommendation \<Rightarrow> bool" where
  "justified r =
     ((r_priority r = 1 \<and> specializedRule (r_issue r)) \<or>
      (r_priority r = 2 \<and> 5 \<le> r_frequency r))"

text \<open>A sequence of calls \<^verbatim>\<open>learnFromOutcome(analysisId, outcome)\<close>, each of which returns.\<close>

definition learnAll :: "successRates \<Rightarrow> (jsval \<times> jsval) list \<Rightarrow> error + successRates" where
  "learnAll sr calls =
     foldE (\<lambda>s (analysisId, outcome). learnFromOutcome s analysisId outcome) sr calls"

text \<open>What one raised defect does to the counters of its entry, and the invariant
  of an entry.\<close>

definition recordOutcome :: "jsval \<Rightarrow> stats \<Rightarrow> stats" where
  "recordOutcome outcome st =
     st\<lparr>totalRaised := totalRaised st + 1,
        successful := (if isSuccessful (field outcome ''outcome'') then successful st + 1
                       else successful st),
        unsuccessful := (if isSuccessful (field outcome ''outcome'') then unsuccessful st
                         else unsuccessful st + 1),
        outcomes := outcomes st @
          [\<lparr>a_date = field outcome ''date'', a_outcome = field outcome ''outcome'',
            a_courtResponse = field outcome ''courtResponse'',
            a_effectiveArguments = field outcome ''effectiveArguments''\<rparr>]\<rparr>"

definition statsInvariant :: "stats \<Rightarrow> bool" where
  "statsInvariant st \<longleftrightarrow>
     successful st + unsuccessful st = totalRaised st \<and>
     length (outcomes st) = totalRaised st \<and> 1 \<le> totalRaised st"


section \<open>Example records\<close>

definition defectA :: jsval where
  "defectA = Obj [(''type'', Str ''A''), (''severity'', Str ''HIGH'')]"

definition defectB :: jsval where
  "defectB = Obj [(''type'', Str ''B''), (''severity'', Str ''LOW'')]"

text \<open>A record with nested findings only, and one with a direct and a nested finding.\<close>

definition nestedOnly :: jsval where
  "nestedOnly = Obj [(''phases'', Obj [(''presetAnalysis'',
      Arr [Obj [(''findings'', Arr [defectB, defectA])], Obj [(''findings'', Arr [defectB])]])])]"

definition directAndNested :: jsval where
  "directAndNested =
     Obj [(''findings'', Arr [defectA]),
          (''phases'', Obj [(''presetAnalysis'', Arr [Obj [(''findings'', Arr [defectB])]])])]"

text \<open>
  A record with a malformed \<^verbatim>\<open>findings\<close>, and a history of records with
  unexpected shapes on which every operation returns: falsy \<^verbatim>\<open>findings\<close> that are
  no arrays, a \<^verbatim>\<open>phases\<close> that is a number, presets that are a number and an object
  whose \<^verbatim>\<open>findings\<close> is a string, findings that are a string and a number, a
  type that is a number and occurs twice, and a record that is a string.
\<close>

definition malformed :: jsval where
  "malformed = Obj [(''id'', Num 7), (''findings'', Str ''none'')]"

definition looseShapes :: "jsval list" where
  "looseShapes =
     [Obj [(''id'', Num 1), (''findings'', Num 0), (''phases'', Num 5)],
      Obj [(''id'', Num 2), (''findings'', Str []),
           (''phases'', Obj [(''presetAnalysis'',
              Arr [Num 3, Obj [(''findings'', Str ''loose'')],
                   Obj [(''findings'', Arr [Num 7, defectA])]])])],
      Str ''record'',
      Obj [(''id'', Num 4),
           (''findings'', Arr [defectA, Obj [(''type'', Num 5)], defectA, Obj [(''type'', Num 5)]])]]"

text \<open>A history whose last record has a direct finding seen before and a nested one
  not seen before.\<close>

definition nestedNovel :: "jsval list" where
  "nestedNovel = [Obj [(''findings'', Arr [defectA])], directAndNested]"

text \<open>Three records with 0, 1 and 1 findings of high severity.\<close>

definition trendHistory :: "jsval list" where
  "trendHistory = [Obj [(''findings'', Arr [])], Obj [(''findings'', Arr [defectA])],
                   Obj [(''findings'', Arr [defectA])]]"

text \<open>Two different pairs of type and statute with the same key.\<close>

definition cautionTwice :: jsval where
  "cautionTwice = Obj [(''type'', Str ''Caution''), (''statute'', Str ''s.464|Crimes Act'')]"

definition cautionOnce :: jsval where
  "cautionOnce = Obj [(''type'', Str ''Caution|s.464''), (''statute'', Str ''Crimes Act'')]"

definition collidingHistory :: "jsval list" where
  "collidingHistory =
     [Obj [(''id'', Num 1), (''timestamp'', Str ''t1''), (''findings'', Arr [cautionTwice])],
      Obj [(''id'', Num 2), (''timestamp'', Str ''t2''), (''findings'', Arr [cautionOnce, cautionTwice])]]"

text \<open>A history whose only record has twenty findings.\<close>

definition busyHistory :: "jsval list" where
  "busyHistory = [Obj [(''id'', Num 1), (''findings'', Arr (replicate 20 defectA))]]"

text \<open>A history whose last record repeats a type not seen before.\<close>

definition novelHistory :: "jsval list" where
  "novelHistory = [Obj [(''findings'', Arr [defectA])], nestedOnly,
                   Obj [(''findings'', Arr [Obj [(''type'', Str ''C'')], defectA,
                                         Obj [(''type'', Str ''C''), (''severity'', Str ''LOW'')]])]]"

text \<open>A history with three recurring groups, of 3, 5 and 3 occurrences, the
  recommendations for it, and its third group.\<close>

definition mkDefect :: "string \<Rightarrow> jsval" where
  "mkDefect ty = Obj [(''type'', Str ty), (''severity'', Str ''MEDIUM'')]"

definition recHistory :: "jsval list" where
  "recHistory =
     [Obj [(''id'', Num 1), (''findings'',
        Arr (replicate 3 (mkDefect ''55D directions'') @ replicate 5 (mkDefect ''Late'') @
             replicate 3 (mkDefect ''Unsigned'')))]]"

definition recResult :: "recommendation list" where
  "recResult =
     [\<lparr>r_issue = Str ''55D directions'', r_frequency = 3,
       r_severity = Str ''HIGH'', r_priority = 1, r_template = Checklist55D,
       r_statute = Str ''Road Safety Act 1986 s.55D''\<rparr>,
      \<lparr>r_issue = Str ''Late'', r_frequency = 5, r_severity = Str ''MEDIUM'',
       r_priority = 2, r_template = GenericPattern, r_statute = Str ''Unknown''\<rparr>]"

definition unsignedGroup :: group where
  "unsignedGroup =
     \<lparr>g_type = Str ''Unsigned'', g_statute = Undefined, g_severity = Str ''MEDIUM'',
      g_count = 3, g_firstSeen = Undefined, g_lastSeen = Undefined,
      g_descriptions = replicate 3 Undefined, g_analysisIds = replicate 3 (Num 1)\<rparr>"

text \<open>Outcome records for defect type \<open>X\<close>, and the map after one of each.\<close>

definition excludedX :: jsval where
  "excludedX = Obj [(''outcome'', Str ''evidence excluded''), (''defectsRaised'', Arr [Str ''X'']),
                    (''date'', Str ''2025-11-11'')]"

definition proceededX :: jsval where
  "proceededX = Obj [(''outcome'', Str ''case proceeded''), (''defectsRaised'', Arr [Str ''X'']),
                     (''date'', Str ''2025-11-12'')]"

definition twoOutcomes :: successRates where
  "twoOutcomes =
     [(Str ''X'',
       \<lparr>s_type = Str ''X'', totalRaised = 2, successful = 1, unsuccessful = 1,
        outcomes = [\<lparr>a_date = Str ''2025-11-11'', a_outcome = Str ''evidence excluded'',
                     a_courtResponse = Undefined, a_effectiveArguments = Undefined\<rparr>,
                    \<lparr>a_date = Str ''2025-11-12'', a_outcome = Str ''case proceeded'',
                     a_courtResponse = Undefined, a_effectiveArguments = Undefined\<rparr>]\<rparr>)]"

section \<open>Exceptions\<close>

lemma bindE_Inl [simp]: "bindE (Inl e) f = Inl e"
  by (simp add: bindE_def)

lemma bindE_Inr [simp]: "bindE (Inr v) f = f v"
  by (simp add: bindE_def)

lemma bindE_eq_Inr: "bindE m f = Inr r \<longleftrightarrow> (\<exists>v. m = Inr v \<and> f v = Inr r)"
  by (cases m) simp_all

lemma get_Inr_not_nullish: "get v k = Inr w \<Longrightarrow> \<not> nullish v"
  by (cases v) simp_all

lemma bindE_return [simp]: "bindE m Inr = m"
  by (cases m) simp_all

lemma get_field: "\<not> nullish v \<Longrightarrow> get v k = Inr (field v k)"
  by (cases v) (simp_all add: field_def)

lemma get_eq_field: "get v k = Inr w \<Longrightarrow> w = field v k"
  by (simp add: field_def)

lemma foldE_invariant:
  assumes "\<And>s x s'. P s \<Longrightarrow> x \<in> set xs \<Longrightarrow> f s x = Inr s' \<Longrightarrow> P s'"
    and "P s" and "foldE f s xs = Inr s'"
  shows "P s'"
  using assms
proof (induction xs arbitrary: s)
  case Nil
  then show ?case by simp
next
  case (Cons x xs)
  from Cons.prems(3) obtain s1 where s1: "f s x = Inr s1" "foldE f s1 xs = Inr s'"
    by (auto simp: bindE_eq_Inr)
  have "P s1" using Cons.prems(1)[OF Cons.prems(2) _ s1(1)] by simp
  show ?case
  proof (rule Cons.IH[OF _ \<open>P s1\<close> s1(2)])
    fix t y t'
    assume "P t" "y \<in> set xs" "f t y = Inr t'"
    then show "P t'" using Cons.prems(1)[of t y t'] by simp
  qed
qed


section \<open>Finding extraction: direct findings win\<close>

lemma presetFindings_array: "get p ''findings'' = Inr (Arr fs) \<Longrightarrow> presetFindings p = Inr fs"
  by (simp add: presetFindings_def)

lemma mapE_presetFindings:
  "list_all2 (\<lambda>p fs. get p ''findings'' = Inr (Arr fs)) ps fss \<Longrightarrow>
   mapE presetFindings ps = Inr fss"
  by (induction ps fss rule: list_all2_induct) (simp_all add: presetFindings_array)

text \<open>
  C1, as the code has it. Whenever the \<^verbatim>\<open>findings\<close> field is an array (even an empty
  one) the extraction yields exactly that array, and findings nested under
  \<^verbatim>\<open>phases.presetAnalysis\<close> are ignored. When \<^verbatim>\<open>findings\<close> is absent or falsy and
  \<^verbatim>\<open>phases.presetAnalysis\<close> is an array of presets, it yields the presets' findings
  arrays concatenated in encounter order, without deduplication. When \<^verbatim>\<open>findings\<close>
  and \<^verbatim>\<open>phases\<close> are both absent it yields the empty sequence.
\<close>

theorem extractFindings_direct_else_nested:
  "(get a ''findings'' = Inr (Arr xs) \<longrightarrow> extractFindings a = Inr xs) \<and>
   (get a ''findings'' = Inr f \<and> \<not> truthy f \<and>
    get a ''phases'' = Inr ph \<and> get ph ''presetAnalysis'' = Inr (Arr ps) \<and>
    list_all2 (\<lambda>p fs. get p ''findings'' = Inr (Arr fs)) ps fss
      \<longrightarrow> extractFindings a = Inr (concat fss)) \<and>
   (get a ''findings'' = Inr f \<and> \<not> truthy f \<and> get a ''phases'' = Inr ph \<and> nullish ph
      \<longrightarrow> extractFindings a = Inr [])"
proof (intro conjI impI)
  assume "get a ''findings'' = Inr (Arr xs)"
  then show "extractFindings a = Inr xs"
    by (simp add: extractFindings_def findingsExpr_def arrayMethod_def)
next
  assume h: "get a ''findings'' = Inr f \<and> \<not> truthy f \<and>
    get a ''phases'' = Inr ph \<and> get ph ''presetAnalysis'' = Inr (Arr ps) \<and>
    list_all2 (\<lambda>p fs. get p ''findings'' = Inr (Arr fs)) ps fss"
  then have "\<not> nullish ph"
    using get_Inr_not_nullish by blast
  moreover from h have "mapE presetFindings ps = Inr fss"
    by (simp add: mapE_presetFindings)
  ultimately have "nestedFindings a = Inr (Arr (concat fss))"
    using h by (simp add: nestedFindings_def)
  with h show "extractFindings a = Inr (concat fss)"
    by (simp add: extractFindings_def findingsExpr_def arrayMethod_def)
next
  assume h: "get a ''findings'' = Inr f \<and> \<not> truthy f \<and> get a ''phases'' = Inr ph \<and> nullish ph"
  then have "nestedFindings a = Inr Undefined"
    by (simp add: nestedFindings_def)
  with h show "extractFindings a = Inr []"
    by (simp add: extractFindings_def findingsExpr_def arrayMethod_def)
qed

theorem extractFindings_direct_else_nested_witness:
  "extractFindings directAndNested = Inr [defectA] \<and>
   extractFindings nestedOnly = Inr [defectB, defectA, defectB] \<and>
   extractFindings (Obj [(''findings'', Null)]) = Inr []"
  using extractFindings_direct_else_nested
          [of directAndNested "[defectA]" Undefined Undefined "[]" "[]"]
        extractFindings_direct_else_nested
          [of nestedOnly "[]" Undefined
              "Obj [(''presetAnalysis'',
                 Arr [Obj [(''findings'', Arr [defectB, defectA])],
                      Obj [(''findings'', Arr [defectB])]])]"
              "[Obj [(''findings'', Arr [defectB, defectA])], Obj [(''findings'', Arr [defectB])]]"
              "[[defectB, defectA], [defectB]]"]
        extractFindings_direct_else_nested
          [of "Obj [(''findings'', Null)]" "[]" Null Undefined "[]" "[]"]
  by (simp add: directAndNested_def nestedOnly_def)

text \<open>
  C1 as stated fails: a record with one direct finding and one nested finding
  yields the direct finding only, not the merge of both.
\<close>

theorem extractFindings_merge_counterexample:
  "extractFindings directAndNested = Inr [defectA] \<and>
   spec_mergedFindings directAndNested = [defectA, defectB] \<and>
   extractFindings directAndNested \<noteq> Inr (spec_mergedFindings directAndNested)"
  by (simp add: extractFindings_def findingsExpr_def arrayMethod_def directAndNested_def
      spec_mergedFindings_def nestedFindings_def presetFindings_def)

section \<open>Outcome learning\<close>

lemma raiseDefect_eq:
  assumes "\<not> nullish outcome"
  shows "raiseDefect outcome sr d =
    Inr (map (\<lambda>(k, st). if k = d then (k, recordOutcome outcome st) else (k, st))
          (if map_of sr d = None
           then sr @ [(d, \<lparr>s_type = d, totalRaised = 0, successful = 0, unsuccessful = 0, outcomes = []\<rparr>)]
           else sr))"
  using assms unfolding raiseDefect_def recordOutcome_def by (simp add: get_field Let_def)

lemma recordOutcome_invariant:
  "successful st + unsuccessful st = totalRaised st \<and> length (outcomes st) = totalRaised st
   \<Longrightarrow> statsInvariant (recordOutcome outcome st)"
  by (simp add: statsInvariant_def recordOutcome_def)

lemma raiseDefect_invariant:
  assumes "\<forall>(k, st) \<in> set sr. statsInvariant st" and "raiseDefect outcome sr d = Inr sr'"
  shows "\<forall>(k, st) \<in> set sr'. statsInvariant st"
proof -
  from assms(2) have nn: "\<not> nullish outcome"
    by (auto simp: raiseDefect_def bindE_eq_Inr dest: get_Inr_not_nullish)
  let ?zero = "\<lparr>s_type = d, totalRaised = 0, successful = 0, unsuccessful = 0, outcomes = []\<rparr>"
  have base: "\<forall>(k, st) \<in> set (sr @ [(d, ?zero)]).
      (k = d \<or> statsInvariant st) \<and>
      successful st + unsuccessful st = totalRaised st \<and> length (outcomes st) = totalRaised st"
    using assms(1) by (auto simp: statsInvariant_def)
  have step: "\<forall>(k, st) \<in> set (map (\<lambda>(k, st). if k = d then (k, recordOutcome outcome st) else (k, st)) xs).
      statsInvariant st"
    if "\<forall>(k, st) \<in> set xs. (k = d \<or> statsInvariant st) \<and>
      successful st + unsuccessful st = totalRaised st \<and> length (outcomes st) = totalRaised st" for xs
    using that by (induction xs) (auto simp: recordOutcome_invariant split: if_splits)
  show ?thesis
  proof (cases "map_of sr d = None")
    case True
    with assms(2) have "sr' = map (\<lambda>(k, st). if k = d then (k, recordOutcome outcome st) else (k, st)) (sr @ [(d, ?zero)])"
      unfolding raiseDefect_eq[OF nn] by simp
    then show ?thesis using step[OF base] by simp
  next
    case False
    with assms(2) have "sr' = map (\<lambda>(k, st). if k = d then (k, recordOutcome outcome st) else (k, st)) sr"
      unfolding raiseDefect_eq[OF nn] by simp
    moreover have "\<forall>(k, st) \<in> set sr. (k = d \<or> statsInvariant st) \<and>
      successful st + unsuccessful st = totalRaised st \<and> length (outcomes st) = totalRaised st"
      using assms(1) by (auto simp: statsInvariant_def)
    ultimately show ?thesis using step by simp
  qed
qed

lemma learnFromOutcome_invariant:
  assumes "\<forall>(k, st) \<in> set sr. statsInvariant st" and "learnFromOutcome sr analysisId outcome = Inr sr'"
  shows "\<forall>(k, st) \<in> set sr'. statsInvariant st"
proof -
  from assms(2) obtain raised where r: "get outcome ''defectsRaised'' = Inr raised"
    and c: "(case raised of Arr ds \<Rightarrow> foldE (raiseDefect outcome) sr ds | _ \<Rightarrow> Inr sr) = Inr sr'"
    by (auto simp: learnFromOutcome_def bindE_eq_Inr)
  show ?thesis
  proof (cases raised)
    case (Arr ds)
    with c have f: "foldE (raiseDefect outcome) sr ds = Inr sr'" by simp
    show ?thesis
    proof (rule foldE_invariant[where P = "\<lambda>s. \<forall>(k, st) \<in> set s. statsInvariant st", OF _ assms(1) f])
      fix s x s'
      assume "\<forall>(k, st) \<in> set s. statsInvariant st" "raiseDefect outcome s x = Inr s'"
      then show "\<forall>(k, st) \<in> set s'. statsInvariant st"
        by (rule raiseDefect_invariant)
    qed
  qed (use c assms(1) in simp_all)
qed

text \<open>
  C10. In every state reached from \<^verbatim>\<open>reset()\<close> by calls of \<^verbatim>\<open>learnFromOutcome\<close>,
  every entry of the success-rate map has \<open>successful + unsuccessful = totalRaised\<close>,
  as many recorded outcomes as \<open>totalRaised\<close>, and \<open>totalRaised \<ge> 1\<close>.
\<close>

theorem stats_counters_consistent:
  "reachable sr \<Longrightarrow> (k, st) \<in> set sr \<Longrightarrow>
   successful st + unsuccessful st = totalRaised st \<and>
   length (outcomes st) = totalRaised st \<and> 1 \<le> totalRaised st"
proof -
  assume "reachable sr"
  then have "\<forall>(k, st) \<in> set sr. statsInvariant st"
  proof (induction rule: reachable.induct)
    case initial
    then show ?case by (simp add: reset_def)
  next
    case (learned sr analysisId outcome sr')
    show ?case by (rule learnFromOutcome_invariant[OF learned.IH learned.hyps(2)])
  qed
  moreover assume "(k, st) \<in> set sr"
  ultimately show ?thesis by (auto simp: statsInvariant_def)
qed

lemma learnAll_reachable: "reachable sr \<Longrightarrow> learnAll sr calls = Inr sr' \<Longrightarrow> reachable sr'"
proof (induction calls arbitrary: sr)
  case Nil
  then show ?case by (simp add: learnAll_def)
next
  case (Cons c calls)
  obtain aid outcome where c: "c = (aid, outcome)" by (cases c)
  from Cons.prems(2) obtain s1 where s1: "learnFromOutcome sr aid outcome = Inr s1"
    "learnAll s1 calls = Inr sr'"
    by (auto simp: learnAll_def c bindE_eq_Inr)
  from Cons.prems(1) s1(1) have "reachable s1" by (rule reachable.learned)
  then show ?case using s1(2) by (rule Cons.IH)
qed

theorem stats_counters_consistent_witness:
  "reachable twoOutcomes \<and> (Str ''X'', snd (hd twoOutcomes)) \<in> set twoOutcomes \<and>
   successful (snd (hd twoOutcomes)) + unsuccessful (snd (hd twoOutcomes)) = 2 \<and>
   totalRaised (snd (hd twoOutcomes)) = 2 \<and> length (outcomes (snd (hd twoOutcomes))) = 2"
proof -
  have "learnAll reset [(Num 1, excludedX), (Num 2, proceededX)] = Inr twoOutcomes"
    by code_simp
  with reachable.initial have r: "reachable twoOutcomes"
    by (rule learnAll_reachable)
  have m: "(Str ''X'', snd (hd twoOutcomes)) \<in> set twoOutcomes"
    by (simp add: twoOutcomes_def)
  from stats_counters_consistent[OF r m] r m show ?thesis
    by (simp add: twoOutcomes_def)
qed

lemma learnFromOutcome_single:
  assumes "get outcome ''defectsRaised'' = Inr (Arr [d])"
  shows "learnFromOutcome sr aid outcome =
    Inr (map (\<lambda>(k, st). if k = d then (k, recordOutcome outcome st) else (k, st))
          (if map_of sr d = None
           then sr @ [(d, \<lparr>s_type = d, totalRaised = 0, successful = 0, unsuccessful = 0, outcomes = []\<rparr>)]
           else sr))"
proof -
  from assms have "\<not> nullish outcome" by (rule get_Inr_not_nullish)
  then show ?thesis
    using assms by (simp add: learnFromOutcome_def raiseDefect_eq)
qed

lemma learnAll_single_entry:
  assumes "\<forall>(aid, outcome) \<in> set calls. get outcome ''defectsRaised'' = Inr (Arr [d])"
  shows "\<exists>st'. learnAll [(d, st)] calls = Inr [(d, st')] \<and> s_type st' = s_type st \<and>
     totalRaised st' = totalRaised st + length calls \<and>
     successful st' = successful st +
       length (filter (\<lambda>(aid, outcome). isSuccessful (field outcome ''outcome'')) calls) \<and>
     unsuccessful st' = unsuccessful st +
       length (filter (\<lambda>(aid, outcome). \<not> isSuccessful (field outcome ''outcome'')) calls)"
  using assms
proof (induction calls arbitrary: st)
  case Nil
  then show ?case by (simp add: learnAll_def)
next
  case (Cons c calls)
  obtain aid outcome where c: "c = (aid, outcome)" by (cases c)
  with Cons.prems have r: "get outcome ''defectsRaised'' = Inr (Arr [d])" by simp
  have step: "learnAll [(d, st)] (c # calls) = learnAll [(d, recordOutcome outcome st)] calls"
    by (simp add: learnAll_def c learnFromOutcome_single[OF r])
  from Cons.prems have "\<forall>(aid, outcome) \<in> set calls. get outcome ''defectsRaised'' = Inr (Arr [d])"
    by simp
  from Cons.IH[OF this, of "recordOutcome outcome st"] obtain st' where
    st': "learnAll [(d, recordOutcome outcome st)] calls = Inr [(d, st')]"
      "s_type st' = s_type (recordOutcome outcome st)"
      "totalRaised st' = totalRaised (recordOutcome outcome st) + length calls"
      "successful st' = successful (recordOutcome outcome st) +
         length (filter (\<lambda>(aid, outcome). isSuccessful (field outcome ''outcome'')) calls)"
      "unsuccessful st' = unsuccessful (recordOutcome outcome st) +
         length (filter (\<lambda>(aid, outcome). \<not> isSuccessful (field outcome ''outcome'')) calls)"
    by blast
  show ?case
    using step st' by (simp add: c recordOutcome_def)
qed

lemma learnAll_fresh:
  assumes "\<forall>(aid, outcome) \<in> set calls. get outcome ''defectsRaised'' = Inr (Arr [d])"
    and "calls \<noteq> []"
  shows "\<exists>st'. learnAll reset calls = Inr [(d, st')] \<and> s_type st' = d \<and>
     totalRaised st' = length calls \<and>
     successful st' =
       length (filter (\<lambda>(aid, outcome). isSuccessful (field outcome ''outcome'')) calls) \<and>
     unsuccessful st' =
       length (filter (\<lambda>(aid, outcome). \<not> isSuccessful (field outcome ''outcome'')) calls)"
proof -
  from assms(2) obtain c rest where cs: "calls = c # rest" by (cases calls) auto
  obtain aid outcome where c: "c = (aid, outcome)" by (cases c)
  let ?zero = "\<lparr>s_type = d, totalRaised = 0, successful = 0, unsuccessful = 0, outcomes = []\<rparr>"
  from assms(1) have r: "get outcome ''defectsRaised'' = Inr (Arr [d])" by (simp add: cs c)
  have "learnAll reset calls = learnAll [(d, ?zero)] calls"
    by (simp add: learnAll_def cs c reset_def learnFromOutcome_single[OF r])
  then show ?thesis
    using learnAll_single_entry[OF assms(1), of ?zero] by simp
qed

lemma length_filter_mono:
  "(\<And>x. x \<in> set xs \<Longrightarrow> P x \<Longrightarrow> Q x) \<Longrightarrow> length (filter P xs) \<le> length (filter Q xs)"
  by (induction xs) auto

lemma getSuccessRates_single:
  "getSuccessRates [(d, st)] = [withRate st]"
  by (simp add: getSuccessRates_def)

lemma withRate_fields:
  "s_type (withRate st) = s_type st" "totalRaised (withRate st) = totalRaised st"
  "successful (withRate st) = successful st" "unsuccessful (withRate st) = unsuccessful st"
  "successRate (withRate st) = (if totalRaised st > 0 then RateFixed (percentage st) else RateZero)"
  by (simp_all add: withRate_def stats.defs rated.defs)

text \<open>
  C5. Starting from the reset state, eight outcome records for defect type \<open>X\<close>, seven
  of them \<open>evidence excluded\<close> and one \<open>case proceeded\<close>, in any order, leave
  \<^verbatim>\<open>getSuccessRates()\<close> with the single entry for \<open>X\<close>: \<open>totalRaised = 8\<close>,
  \<open>successful = 7\<close>, \<open>unsuccessful = 1\<close> and \<open>successRate\<close> the string \<open>87.5\<close>.
\<close>

theorem success_rate_round_trip:
  assumes "length calls = 8"
    and "\<forall>(aid, outcome) \<in> set calls. get outcome ''defectsRaised'' = Inr (Arr [Str ''X''])"
    and "length (filter (\<lambda>(aid, outcome). get outcome ''outcome'' = Inr (Str ''evidence excluded'')) calls) = 7"
    and "length (filter (\<lambda>(aid, outcome). get outcome ''outcome'' = Inr (Str ''case proceeded'')) calls) = 1"
  shows "\<exists>sr r. learnAll reset calls = Inr sr \<and> getSuccessRates sr = [r] \<and>
     s_type r = Str ''X'' \<and> totalRaised r = 8 \<and> successful r = 7 \<and> unsuccessful r = 1 \<and>
     rateText (successRate r) = ''87.5''"
proof -
  let ?S = "\<lambda>(aid, outcome). isSuccessful (field outcome ''outcome'')"
  let ?U = "\<lambda>(aid, outcome). \<not> isSuccessful (field outcome ''outcome'')"
  have nn: "\<not> nullish outcome" if "(aid, outcome) \<in> set calls" for aid outcome
    using assms(2) that get_Inr_not_nullish by fastforce
  have "7 \<le> length (filter ?S calls)"
    unfolding assms(3)[symmetric]
    by (rule length_filter_mono) (auto simp: field_def isSuccessful_def)
  moreover have "1 \<le> length (filter ?U calls)"
    unfolding assms(4)[symmetric]
    by (rule length_filter_mono) (auto simp: field_def isSuccessful_def)
  moreover have "length (filter ?S calls) + length (filter ?U calls) = 8"
    using sum_length_filter_compl[of ?S calls] assms(1) by (simp add: case_prod_unfold)
  ultimately have counts: "length (filter ?S calls) = 7" "length (filter ?U calls) = 1"
    by linarith+
  from assms(1) have "calls \<noteq> []" by auto
  from learnAll_fresh[OF assms(2) this] obtain st' where
    st': "learnAll reset calls = Inr [(Str ''X'', st')]" "s_type st' = Str ''X''"
      "totalRaised st' = 8" "successful st' = 7" "unsuccessful st' = 1"
    using counts assms(1) by auto
  have "toFixed1 (7 / 8 * 100) = 875"
    by code_simp
  then have "percentage st' = 875"
    by (simp add: percentage_def st')
  moreover have "fixed1_text 875 = ''87.5''"
    by code_simp
  ultimately have "rateText (successRate (withRate st')) = ''87.5''"
    by (simp add: withRate_fields st')
  then show ?thesis
    using st' getSuccessRates_single[of "Str ''X''" st'] by (simp add: withRate_fields)
qed

theorem success_rate_round_trip_witness:
  "length (replicate 7 (Num 1, excludedX) @ [(Num 2, proceededX)]) = 8 \<and>
   (\<exists>sr r. learnAll reset (replicate 7 (Num 1, excludedX) @ [(Num 2, proceededX)]) = Inr sr \<and>
      getSuccessRates sr = [r] \<and> s_type r = Str ''X'' \<and> totalRaised r = 8 \<and>
      successful r = 7 \<and> unsuccessful r = 1 \<and> rateText (successRate r) = ''87.5'')"
proof -
  let ?calls = "replicate 7 (Num 1, excludedX) @ [(Num 2, proceededX)]"
  have 1: "length ?calls = 8" by simp
  have 2: "\<forall>(aid, outcome) \<in> set ?calls. get outcome ''defectsRaised'' = Inr (Arr [Str ''X''])"
    by (simp add: excludedX_def proceededX_def)
  have 3: "length (filter (\<lambda>(aid, outcome). get outcome ''outcome'' = Inr (Str ''evidence excluded'')) ?calls) = 7"
    by (simp add: excludedX_def proceededX_def)
  have 4: "length (filter (\<lambda>(aid, outcome). get outcome ''outcome'' = Inr (Str ''case proceeded'')) ?calls) = 1"
    by (simp add: excludedX_def proceededX_def)
  from success_rate_round_trip[OF 1 2 3 4] 1 show ?thesis by blast
qed

section \<open>Prioritising defects: the advisory\<close>

lemma prioritize_never_strong:
  "prioritize sr defect = Inr p \<Longrightarrow> p_recommendation p \<noteq> StrongDefect"
  by (auto simp: prioritize_def bindE_eq_Inr greaterThan_def storedSuccessRate_def
      split: option.splits if_splits)

lemma prioritize_advisory:
  assumes "prioritize sr defect = Inr p"
  shows "p_recommendation p =
    (case map_of sr (field defect ''type'') of
       Some successInfo \<Rightarrow>
         if 3 \<le> totalRaised successInfo then EnsureStrongEvidence else NoHistoricalData
     | None \<Rightarrow> NoHistoricalData)"
proof -
  from assms obtain ty where t: "get defect ''type'' = Inr ty"
    and p: "prioritize sr defect = Inr p"
    by (auto simp: prioritize_def bindE_eq_Inr)
  from get_eq_field[OF t] have ty: "ty = field defect ''type''" .
  show ?thesis
  proof (cases "map_of sr (field defect ''type'')")
    case None
    with p t ty show ?thesis by (auto simp: prioritize_def)
  next
    case (Some successInfo)
    with p t ty show ?thesis
      by (cases "3 \<le> totalRaised successInfo")
        (auto simp: prioritize_def greaterThan_def storedSuccessRate_def)
  qed
qed

text \<open>
  C2 fails on the code. After three \<open>evidence excluded\<close> outcomes for \<open>X\<close> the entry has
  \<open>totalRaised = 3\<close> and a success rate of \<open>100.0\<close>, above 60, yet a defect of type \<open>X\<close>
  gets the "ensure strong evidence" advisory: the comparison reads \<^verbatim>\<open>successRate\<close>
  from the stored entry, which has no such property.
\<close>

theorem prioritizeDefects_high_rate_advisory:
  "bindE (learnAll reset [(Num 1, excludedX), (Num 2, excludedX), (Num 3, excludedX)])
     (\<lambda>sr. prioritizeDefects sr [Obj [(''type'', Str ''X'')]]) =
   Inr [\<lparr>p_defect = Obj [(''type'', Str ''X'')], hasHistoricalData = True,
         p_successRate = Some 1000, timesRaised = Some 3,
         p_recommendation = EnsureStrongEvidence\<rparr>] \<and>
   fixed1_text 1000 = ''100.0''"
  by code_simp


section \<open>Trends: a first half without high-severity findings\<close>

lemma classify_zero_first:
  "0 \<le> s \<Longrightarrow> t_direction (classify 0 s) = (if 0 < s then WORSENING else STABLE)"
  by (simp add: classify_def)

lemma classify_zero_first_percent:
  "0 < s \<Longrightarrow> t_percent (classify 0 s) = Some Infinity"
  by (simp add: classify_def jsdiv_def)

text \<open>
  C3 fails on the code. For three records with 0, 1 and 1 HIGH findings the first
  average is 0 and the second is 1: the result is WORSENING, not STABLE, and the
  percentage printed is the quotient by the zero average, \<open>Infinity\<close>.
\<close>

theorem analyzeTrends_zero_first_average:
  "mapE severityCount trendHistory = Inr [0, 1, 1] \<and>
   average (take (length [0, 1, 1 :: nat] div 2) [0, 1, 1]) = 0 \<and>
   analyzeTrends trendHistory =
     Inr (Trend \<lparr>t_direction = WORSENING, t_percent = Some Infinity,
                 t_recommendation = ''Systematic review of documentation processes recommended'',
                 t_severity = ''HIGH'', t_firstAvg = 0, t_secondAvg = 10\<rparr>)"
  by code_simp

section \<open>Folds, maps and filters that may throw\<close>

lemma nullish_not_truthy: "nullish v \<Longrightarrow> \<not> truthy v"
  by (cases v) simp_all

lemma foldE_total:
  assumes "P s" and "\<And>s x. P s \<Longrightarrow> x \<in> set xs \<Longrightarrow> \<exists>s'. f s x = Inr s' \<and> P s'"
  shows "\<exists>s'. foldE f s xs = Inr s' \<and> P s'"
  using assms
proof (induction xs arbitrary: s)
  case Nil
  then show ?case by simp
next
  case (Cons x xs)
  from Cons.prems(2)[OF Cons.prems(1), of x] obtain s1 where s1: "f s x = Inr s1" "P s1"
    by auto
  have "\<exists>s'. foldE f s1 xs = Inr s' \<and> P s'"
  proof (rule Cons.IH[OF s1(2)])
    fix t y
    assume "P t" "y \<in> set xs"
    then show "\<exists>s'. f t y = Inr s' \<and> P s'" using Cons.prems(2)[of t y] by simp
  qed
  then show ?case using s1(1) by simp
qed

lemma mapE_total:
  assumes "\<And>x. x \<in> set xs \<Longrightarrow> \<exists>y. f x = Inr y \<and> Q y"
  shows "\<exists>ys. mapE f xs = Inr ys \<and> list_all Q ys"
  using assms
proof (induction xs)
  case Nil
  then show ?case by simp
next
  case (Cons x xs)
  from Cons.prems[of x] obtain y where y: "f x = Inr y" "Q y" by auto
  from Cons.IH Cons.prems obtain ys where ys: "mapE f xs = Inr ys" "list_all Q ys" by auto
  show ?case using y ys by simp
qed

lemma filterE_total:
  assumes "\<And>x. x \<in> set xs \<Longrightarrow> \<exists>b. p x = Inr b"
  shows "\<exists>ys. filterE p xs = Inr ys \<and> set ys \<subseteq> set xs"
  using assms
proof (induction xs)
  case Nil
  then show ?case by simp
next
  case (Cons x xs)
  from Cons.prems[of x] obtain b where b: "p x = Inr b" by auto
  from Cons.IH Cons.prems obtain ys where ys: "filterE p xs = Inr ys" "set ys \<subseteq> set xs" by auto
  show ?case using b ys by auto
qed

lemma list_all_concat: "list_all (list_all P) xss \<Longrightarrow> list_all P (concat xss)"
  by (induction xss) simp_all

lemma set_insertBy: "set (insertBy cmp x xs) = insert x (set xs)"
  by (induction xs) auto

lemma set_sortBy: "set (sortBy cmp xs) = set xs"
  by (induction xs) (simp_all add: set_insertBy)

lemma foldE_each:
  "foldE f s xs = Inr s' \<Longrightarrow> x \<in> set xs \<Longrightarrow> \<exists>a b. f a x = Inr b"
proof (induction xs arbitrary: s)
  case Nil
  then show ?case by simp
next
  case (Cons y ys)
  from Cons.prems(1) obtain s1 where s1: "f s y = Inr s1" "foldE f s1 ys = Inr s'"
    by (auto simp: bindE_eq_Inr)
  show ?case
  proof (cases "x = y")
    case True
    with s1(1) show ?thesis by blast
  next
    case False
    with Cons.prems(2) have "x \<in> set ys" by simp
    with Cons.IH[OF s1(2)] show ?thesis .
  qed
qed

section \<open>Conversion to strings and finding extraction\<close>

lemma mapE_Inr_iff: "(\<exists>ys. mapE f xs = Inr ys) \<longleftrightarrow> (\<forall>x \<in> set xs. \<exists>y. f x = Inr y)"
  by (induction xs) (auto simp: bindE_eq_Inr)

lemma toStr_returns:
  "(\<exists>s. toStr v = Inr s) \<longleftrightarrow> convertible v"
  "(\<exists>ss. elementStrs vs = Inr ss) \<longleftrightarrow> list_all convertible vs"
proof (induction v and vs rule: toStr_elementStrs.induct)
  case (9 v vs)
  then show ?case by (cases v) (auto simp: bindE_eq_Inr)
qed (auto simp: bindE_eq_Inr)

lemma toStr_textOf: "convertible v \<Longrightarrow> toStr v = Inr (textOf v)"
  using toStr_returns(1)[of v] by (auto simp: textOf_def)

lemma toStr_Inr: "toStr v = Inr s \<Longrightarrow> s = textOf v \<and> convertible v"
  using toStr_returns(1)[of v] by (auto simp: textOf_def)

lemma defectKey_keyOf:
  assumes "convertible (field d ''type'')" and "convertible (statuteOrUnknown d)"
  shows "defectKey (field d ''type'') (field d ''statute'') = Inr (keyOf d)"
  using toStr_textOf[OF assms(1)] toStr_textOf[OF assms(2)]
  by (simp add: defectKey_def keyOf_def statuteOrUnknown_def)

lemma defectKey_Inr:
  assumes "defectKey (field d ''type'') (field d ''statute'') = Inr k"
  shows "k = keyOf d \<and> convertible (field d ''type'') \<and> convertible (statuteOrUnknown d)"
proof -
  from assms obtain t s where t: "toStr (field d ''type'') = Inr t"
    and s: "toStr (statuteOrUnknown d) = Inr s" and k: "k = t @ ''|'' @ s"
    by (auto simp: defectKey_def bindE_eq_Inr statuteOrUnknown_def)
  from toStr_Inr[OF t] toStr_Inr[OF s] k show ?thesis by (simp add: keyOf_def)
qed

lemma presetFindings_returns: "(\<exists>fs. presetFindings p = Inr fs) \<longleftrightarrow> \<not> nullish p"
  by (cases p) (auto simp: presetFindings_def bindE_eq_Inr)

lemma nestedFindings_returns:
  assumes "\<not> nullish a"
  shows "(\<exists>n. nestedFindings a = Inr n) \<longleftrightarrow>
         (nullish (field a ''phases'') \<or>
          nullish (field (field a ''phases'') ''presetAnalysis'') \<or>
          (case field (field a ''phases'') ''presetAnalysis'' of
             Arr ps \<Rightarrow> list_all (\<lambda>p. \<not> nullish p) ps | _ \<Rightarrow> False))"
proof (cases "nullish (field a ''phases'')")
  case True
  then show ?thesis using assms by (simp add: nestedFindings_def get_field)
next
  case ph: False
  show ?thesis
  proof (cases "nullish (field (field a ''phases'') ''presetAnalysis'')")
    case True
    then show ?thesis using assms ph by (simp add: nestedFindings_def get_field)
  next
    case pa: False
    show ?thesis
    proof (cases "field (field a ''phases'') ''presetAnalysis''")
      case (Arr ps)
      have "(\<exists>fss. mapE presetFindings ps = Inr fss) \<longleftrightarrow> list_all (\<lambda>p. \<not> nullish p) ps"
        by (simp add: mapE_Inr_iff presetFindings_returns list_all_iff)
      then show ?thesis using assms ph pa Arr
        by (auto simp: nestedFindings_def get_field bindE_eq_Inr)
    qed (use assms ph pa in \<open>simp_all add: nestedFindings_def get_field\<close>)
  qed
qed

lemma nestedFindings_value:
  "nestedFindings a = Inr n \<Longrightarrow> n = Undefined \<or> isArray n"
proof -
  assume n: "nestedFindings a = Inr n"
  then obtain ph where ph: "get a ''phases'' = Inr ph"
    by (auto simp: nestedFindings_def bindE_eq_Inr)
  show ?thesis
  proof (cases "nullish ph")
    case True
    with n ph show ?thesis by (simp add: nestedFindings_def)
  next
    case False
    with n ph obtain pa where pa: "get ph ''presetAnalysis'' = Inr pa"
      by (auto simp: nestedFindings_def bindE_eq_Inr)
    show ?thesis
    proof (cases "nullish pa")
      case True
      with n ph pa False show ?thesis by (simp add: nestedFindings_def)
    next
      case npa: False
      with n ph pa False show ?thesis
        by (cases pa) (auto simp: nestedFindings_def bindE_eq_Inr isArray_def)
    qed
  qed
qed

lemma extractFindings_returns: "(\<exists>fs. extractFindings a = Inr fs) \<longleftrightarrow> wellFormed a"
proof (cases "nullish a")
  case True
  then show ?thesis by (cases a) (simp_all add: extractFindings_def findingsExpr_def wellFormed_def)
next
  case nn: False
  show ?thesis
  proof (cases "truthy (field a ''findings'')")
    case True
    then show ?thesis using nn
      by (cases "field a ''findings''")
         (simp_all add: extractFindings_def findingsExpr_def get_field wellFormed_def
            arrayMethod_def isArray_def)
  next
    case False
    have "(\<exists>fs. extractFindings a = Inr fs) \<longleftrightarrow> (\<exists>n. nestedFindings a = Inr n)"
    proof
      assume "\<exists>fs. extractFindings a = Inr fs"
      then show "\<exists>n. nestedFindings a = Inr n" using nn False
        by (auto simp: extractFindings_def findingsExpr_def get_field bindE_eq_Inr)
    next
      assume "\<exists>n. nestedFindings a = Inr n"
      then obtain n where n: "nestedFindings a = Inr n" by blast
      from nestedFindings_value[OF n] show "\<exists>fs. extractFindings a = Inr fs"
        using nn False n
        by (cases n) (auto simp: extractFindings_def findingsExpr_def get_field arrayMethod_def isArray_def)
    qed
    then show ?thesis using nestedFindings_returns[OF nn] nn False by (simp add: wellFormed_def)
  qed
qed

lemma wellFormed_extract: "wellFormed a \<Longrightarrow> extractFindings a = Inr (findingsOf a)"
  using extractFindings_returns[of a] by (auto simp: findingsOf_def)

lemma extract_findingsOf: "extractFindings a = Inr fs \<Longrightarrow> fs = findingsOf a \<and> wellFormed a"
  using extractFindings_returns[of a] by (auto simp: findingsOf_def)

lemma wellFormed_not_nullish: "wellFormed a \<Longrightarrow> \<not> nullish a"
  by (simp add: wellFormed_def)



section \<open>Histories on which the operations return\<close>

lemma readableDefect_get: "readableDefect d \<Longrightarrow> get d k = Inr (field d k)"
  by (simp add: readableDefect_def get_field)

lemma readableDefect_toStr: "readableDefect d \<Longrightarrow> toStr (field d ''type'') = Inr (textOf (field d ''type''))"
  by (simp add: readableDefect_def toStr_textOf)

lemma okRecord_extract:
  "okRecord a \<Longrightarrow> extractFindings a = Inr (findingsOf a) \<and> list_all readableDefect (findingsOf a)"
  by (simp add: okRecord_def wellFormed_extract)

lemma severityCount_total: "okRecord a \<Longrightarrow> \<exists>n. severityCount a = Inr n"
proof -
  assume "okRecord a"
  from okRecord_extract[OF this] obtain ds where
    ds: "extractFindings a = Inr ds" "list_all readableDefect ds"
    by blast
  have "\<exists>sevs. mapE (\<lambda>d. get d ''severity'') ds = Inr sevs \<and> list_all (\<lambda>v. True) sevs"
    by (rule mapE_total) (use ds(2) readableDefect_get in \<open>auto simp: list_all_iff\<close>)
  then show ?thesis using ds(1) by (auto simp: severityCount_def)
qed

lemma analyzeTrends_total:
  assumes "list_all okRecord h"
  shows "\<exists>r. analyzeTrends h = Inr r"
proof (cases "length h < 3")
  case True
  then show ?thesis by (simp add: analyzeTrends_def)
next
  case False
  have "\<exists>cs. mapE severityCount (sliceLast 5 h) = Inr cs \<and> list_all (\<lambda>v. True) cs"
  proof (rule mapE_total)
    fix x assume "x \<in> set (sliceLast 5 h)"
    then have "x \<in> set h" unfolding sliceLast_def by (rule in_set_dropD)
    with assms have "okRecord x" by (simp add: list_all_iff)
    then show "\<exists>y. severityCount x = Inr y \<and> True" using severityCount_total by simp
  qed
  then show ?thesis using False by (auto simp: analyzeTrends_def Let_def)
qed

lemma tallyFinding_eq:
  "readableDefect f \<Longrightarrow>
   tallyFinding (t, cr, hi) f =
     Inr (t, (if field f ''severity'' = Str ''CRITICAL'' then cr + 1 else cr),
             (if field f ''severity'' = Str ''HIGH'' then hi + 1 else hi))"
  by (simp add: tallyFinding_def readableDefect_get readableDefect_toStr)

lemma tallyFinding_Inr:
  assumes "tallyFinding (t, cr, hi) f = Inr c"
  shows "\<not> nullish f \<and> convertible (field f ''type'') \<and>
         c = (t, (if field f ''severity'' = Str ''CRITICAL'' then cr + 1 else cr),
                 (if field f ''severity'' = Str ''HIGH'' then hi + 1 else hi))"
proof -
  from assms obtain sev where sev: "get f ''severity'' = Inr sev"
    by (auto simp: tallyFinding_def bindE_eq_Inr)
  then have nn: "\<not> nullish f" by (rule get_Inr_not_nullish)
  from assms nn obtain name where "toStr (field f ''type'') = Inr name"
    by (auto simp: tallyFinding_def get_field bindE_eq_Inr)
  from toStr_Inr[OF this] assms nn show ?thesis
    by (auto simp: tallyFinding_def get_field bindE_eq_Inr)
qed

lemma foldE_tallyFinding:
  "foldE tallyFinding (t, cr, hi) fs = Inr c \<Longrightarrow>
   c = (t, cr + length (filter (\<lambda>f. field f ''severity'' = Str ''CRITICAL'') fs),
           hi + length (filter (\<lambda>f. field f ''severity'' = Str ''HIGH'') fs))"
proof (induction fs arbitrary: cr hi)
  case Nil
  then show ?case by simp
next
  case (Cons f fs)
  from Cons.prems obtain c1 where c1: "tallyFinding (t, cr, hi) f = Inr c1"
    and rest: "foldE tallyFinding c1 fs = Inr c"
    by (auto simp: bindE_eq_Inr)
  from tallyFinding_Inr[OF c1] have
    "c1 = (t, (if field f ''severity'' = Str ''CRITICAL'' then cr + 1 else cr),
              (if field f ''severity'' = Str ''HIGH'' then hi + 1 else hi))" by simp
  from Cons.IH[OF rest[unfolded this]] show ?case by simp
qed

lemma foldE_tallyFinding_total:
  "list_all readableDefect fs \<Longrightarrow> \<exists>c'. foldE tallyFinding c fs = Inr c'"
proof (induction fs arbitrary: c)
  case Nil
  show ?case by (rule exI[of _ c]) simp
next
  case (Cons f fs)
  obtain t cr hi where c: "c = (t, cr, hi)" by (metis prod_cases3)
  from Cons.prems have "readableDefect f" by simp
  from tallyFinding_eq[OF this, of t cr hi] obtain c1 where c1: "tallyFinding c f = Inr c1"
    unfolding c by blast
  from Cons.prems have "list_all readableDefect fs" by simp
  from Cons.IH[OF this, of c1] c1 show ?case by simp
qed

lemma tally_total:
  assumes "okRecord a"
  shows "\<exists>c'. tally c a = Inr c'"
proof -
  obtain t cr hi where c: "c = (t, cr, hi)" by (metis prod_cases3)
  from okRecord_extract[OF assms] foldE_tallyFinding_total show ?thesis
    by (simp add: tally_def c)
qed

lemma tally_Inr:
  assumes "tally (t, cr, hi) a = Inr c"
  shows "c = (t + length (findingsOf a),
              cr + length (filter (\<lambda>f. field f ''severity'' = Str ''CRITICAL'') (findingsOf a)),
              hi + length (filter (\<lambda>f. field f ''severity'' = Str ''HIGH'') (findingsOf a)))"
proof -
  from assms obtain fs where fs: "extractFindings a = Inr fs"
    and f: "foldE tallyFinding (t + length fs, cr, hi) fs = Inr c"
    by (auto simp: tally_def bindE_eq_Inr)
  from extract_findingsOf[OF fs] foldE_tallyFinding[OF f] show ?thesis by simp
qed

lemma foldE_tally:
  "foldE tally (t, cr, hi) h = Inr c \<Longrightarrow>
   c = (t + length (concat (map findingsOf h)),
        cr + length (filter (\<lambda>f. field f ''severity'' = Str ''CRITICAL'') (concat (map findingsOf h))),
        hi + length (filter (\<lambda>f. field f ''severity'' = Str ''HIGH'') (concat (map findingsOf h))))"
proof (induction h arbitrary: t cr hi)
  case Nil
  then show ?case by simp
next
  case (Cons a h)
  from Cons.prems obtain c1 where c1: "tally (t, cr, hi) a = Inr c1"
    and rest: "foldE tally c1 h = Inr c"
    by (auto simp: bindE_eq_Inr)
  from Cons.IH[OF rest[unfolded tally_Inr[OF c1]]] show ?case by simp
qed

lemma calculateCompliance_total:
  assumes "list_all okRecord h"
  shows "\<exists>m. calculateCompliance h = Inr m"
proof (cases "h = []")
  case True
  then show ?thesis by (simp add: calculateCompliance_def)
next
  case False
  have "\<exists>c. foldE tally (0, 0, 0) h = Inr c \<and> True"
  proof (rule foldE_total[where P = "\<lambda>s. True"])
    fix s :: counters and x assume "x \<in> set h"
    with assms have "okRecord x" by (simp add: list_all_iff)
    then show "\<exists>s'. tally s x = Inr s' \<and> True" using tally_total by simp
  qed simp
  then obtain c where c: "foldE tally (0, 0, 0) h = Inr c" by blast
  obtain t cr hi where "c = (t, cr, hi)" by (metis prod_cases3)
  with c False show ?thesis by (simp add: calculateCompliance_def Let_def)
qed

lemma addIssueTypes_total:
  assumes "okRecord a"
  shows "\<exists>seen'. addIssueTypes seen a = Inr seen'"
proof -
  from okRecord_extract[OF assms] obtain ds where
    ds: "extractFindings a = Inr ds" "list_all readableDefect ds"
    by blast
  have "\<exists>seen'. foldE (\<lambda>seen f. bindE (get f ''type'') (\<lambda>t. Inr (insert t seen))) seen ds = Inr seen' \<and> True"
  proof (rule foldE_total[where P = "\<lambda>s. True"])
    fix s :: "jsval set" and x assume "x \<in> set ds"
    with ds(2) have "readableDefect x" by (simp add: list_all_iff)
    then show "\<exists>s'. bindE (get x ''type'') (\<lambda>t. Inr (insert t s)) = Inr s' \<and> True"
      by (simp add: readableDefect_get)
  qed simp
  then show ?thesis using ds(1) by (auto simp: addIssueTypes_def)
qed

lemma identifyNovelIssues_total:
  assumes "list_all okRecord h"
  shows "\<exists>r. identifyNovelIssues h = Inr r"
proof (cases "h = []")
  case True
  then show ?thesis by (simp add: identifyNovelIssues_def)
next
  case False
  then have "last h \<in> set h" by simp
  with assms have "okRecord (last h)" by (simp add: list_all_iff)
  from okRecord_extract[OF this] obtain latest where
    l: "extractFindings (last h) = Inr latest" "list_all readableDefect latest" by blast
  have "\<exists>prev. foldE addIssueTypes {} (butlast h) = Inr prev \<and> True"
  proof (rule foldE_total[where P = "\<lambda>s. True"])
    fix s :: "jsval set" and x assume "x \<in> set (butlast h)"
    then have "x \<in> set h" by (rule in_set_butlastD)
    with assms have "okRecord x" by (simp add: list_all_iff)
    then show "\<exists>s'. addIssueTypes s x = Inr s' \<and> True" using addIssueTypes_total by simp
  qed simp
  then obtain prev where prev: "foldE addIssueTypes {} (butlast h) = Inr prev" by blast
  have "\<exists>ys. filterE (\<lambda>finding. bindE (get finding ''type'') (\<lambda>t. Inr (\<not> setHas prev t))) latest = Inr ys
      \<and> set ys \<subseteq> set latest"
    by (rule filterE_total) (use l(2) readableDefect_get in \<open>auto simp: list_all_iff\<close>)
  then obtain ys where ys: "filterE (\<lambda>finding. bindE (get finding ''type'') (\<lambda>t. Inr (\<not> setHas prev t))) latest = Inr ys"
    "set ys \<subseteq> set latest" by blast
  have "\<exists>r. mapE novelEntry ys = Inr r \<and> list_all (\<lambda>v. True) r"
  proof (rule mapE_total)
    fix x assume "x \<in> set ys"
    with ys(2) l(2) have "readableDefect x" by (auto simp: list_all_iff)
    then show "\<exists>y. novelEntry x = Inr y \<and> True"
      by (simp add: novelEntry_def readableDefect_get readableDefect_toStr)
  qed
  then show ?thesis using False l(1) prev ys(1) by (auto simp: identifyNovelIssues_def)
qed



section \<open>Compliance rate\<close>

lemma floor_int_plus_half: "\<lfloor>(of_int k :: rat) + 1 / 2\<rfloor> = k"
  by (rule floor_unique) simp_all

lemma toFixed1_tenths: "toFixed1 (of_int n / 10) = n"
proof (cases "n < 0")
  case True
  have "\<lfloor>- (of_int n / 10 :: rat) * 10 + 1 / 2\<rfloor> = - n"
    using floor_int_plus_half[of "- n"] by simp
  then show ?thesis using True by (simp add: toFixed1_def)
next
  case False
  have "\<lfloor>(of_int n / 10 :: rat) * 10 + 1 / 2\<rfloor> = n"
    using floor_int_plus_half[of n] by simp
  then show ?thesis using False by (simp add: toFixed1_def)
qed

lemma complianceScore_tenths:
  "max 0 (100 - fixed1_value k * 5) = (of_int (max 0 (1000 - 5 * k)) / 10 :: rat)"
  by (simp add: fixed1_value_def max_def field_simps)

lemma complianceRate_exact:
  "fixed1_value (toFixed1 (max 0 (100 - fixed1_value k * 5))) = max 0 (100 - fixed1_value k * 5)"
  unfolding complianceScore_tenths toFixed1_tenths by (simp add: fixed1_value_def)

text \<open>\<^verbatim>\<open>toFixed(1)\<close> of a number that is not negative is within a twentieth of it.\<close>

lemma toFixed1_near:
  assumes "0 \<le> q"
  shows "\<bar>fixed1_value (toFixed1 q) - q\<bar> \<le> 1 / 20"
proof -
  let ?n = "\<lfloor>q * 10 + 1 / 2\<rfloor>"
  have "of_int ?n \<le> q * 10 + 1 / 2" by (rule of_int_floor_le)
  moreover have "q * 10 + 1 / 2 < of_int ?n + 1" by linarith
  ultimately have "\<bar>of_int ?n - q * 10\<bar> \<le> 1 / 2" by linarith
  then have "\<bar>of_int ?n / 10 - q\<bar> \<le> 1 / 20" by (simp add: abs_le_iff field_simps)
  then show ?thesis using assms by (simp add: toFixed1_def fixed1_value_def)
qed

lemma calculateCompliance_Inr:
  assumes "h \<noteq> []" and "calculateCompliance h = Inr m"
  shows "m = \<lparr>totalAnalyses = length h, totalIssues = Some (issueCount h),
               averageIssuesPerDoc =
                 fixed1_value (toFixed1 (of_nat (issueCount h) / of_nat (length h))),
               complianceRate =
                 fixed1_value (toFixed1 (max 0 (100 -
                   fixed1_value (toFixed1 (of_nat (issueCount h) / of_nat (length h))) * 5))),
               criticalIssues =
                 Some (length (filter (\<lambda>f. field f ''severity'' = Str ''CRITICAL'')
                         (concat (map findingsOf h)))),
               highIssues =
                 Some (length (filter (\<lambda>f. field f ''severity'' = Str ''HIGH'')
                         (concat (map findingsOf h))))\<rparr>"
proof -
  from assms obtain c where c: "foldE tally (0, 0, 0) h = Inr c"
    by (auto simp: calculateCompliance_def bindE_eq_Inr)
  from assms c show ?thesis
    unfolding foldE_tally[OF c] by (simp add: calculateCompliance_def Let_def issueCount_def)
qed

text \<open>
  C6. For every non-empty history on which \<^verbatim>\<open>calculateCompliance\<close> returns,
  \<open>totalAnalyses\<close> is the number of records and \<open>totalIssues\<close> the number of findings of
  the history (the findings the extraction yields, see C1); \<open>averageIssuesPerDoc\<close> is
  a number with one decimal that is within a twentieth of the quotient of the two,
  which is what rounding the quotient to one decimal means whichever way a tie goes;
  \<open>criticalIssues\<close> and \<open>highIssues\<close> count the findings of these severities. For
  every history on which it returns, \<open>complianceRate\<close> is
  \<open>max 0 (100 - averageIssuesPerDoc * 5)\<close>, which has one decimal already, so that
  the rounding to one decimal leaves it unchanged; it is never negative, and it is 0
  whenever \<open>averageIssuesPerDoc \<ge> 20\<close>, which is the case whenever the history has
  at least twenty findings per record. The empty history gives rate 100, average 0
  and no counts. The operation returns on every history of records it can read.
\<close>

theorem complianceRate_floor:
  "(calculateCompliance h = Inr m \<longrightarrow>
      complianceRate m = max 0 (100 - averageIssuesPerDoc m * 5) \<and>
      complianceRate m = fixed1_value (toFixed1 (max 0 (100 - averageIssuesPerDoc m * 5))) \<and>
      0 \<le> complianceRate m \<and>
      (20 \<le> averageIssuesPerDoc m \<longrightarrow> complianceRate m = 0)) \<and>
   (h \<noteq> [] \<and> calculateCompliance h = Inr m \<longrightarrow>
      totalAnalyses m = length h \<and>
      totalIssues m = Some (issueCount h) \<and>
      (\<exists>k. averageIssuesPerDoc m = of_int k / 10) \<and>
      \<bar>averageIssuesPerDoc m - of_nat (issueCount h) / of_nat (length h)\<bar> \<le> 1 / 20 \<and>
      (20 * length h \<le> issueCount h \<longrightarrow> complianceRate m = 0) \<and>
      criticalIssues m =
        Some (length (filter (\<lambda>f. field f ''severity'' = Str ''CRITICAL'')
                        (concat (map findingsOf h)))) \<and>
      highIssues m =
        Some (length (filter (\<lambda>f. field f ''severity'' = Str ''HIGH'')
                        (concat (map findingsOf h))))) \<and>
   calculateCompliance [] =
     Inr \<lparr>totalAnalyses = 0, totalIssues = None, averageIssuesPerDoc = 0, complianceRate = 100,
          criticalIssues = None, highIssues = None\<rparr> \<and>
   (list_all okRecord h \<longrightarrow> (\<exists>r. calculateCompliance h = Inr r))"
proof -
  have empty: "calculateCompliance [] =
     Inr \<lparr>totalAnalyses = 0, totalIssues = None, averageIssuesPerDoc = 0, complianceRate = 100,
          criticalIssues = None, highIssues = None\<rparr>"
    by (simp add: calculateCompliance_def)
  have hundred: "fixed1_value (toFixed1 100) = 100"
    using toFixed1_tenths[of 1000] by (simp add: fixed1_value_def)
  let ?q = "of_nat (issueCount h) / of_nat (length h) :: rat"
  have rate: "complianceRate m = max 0 (100 - averageIssuesPerDoc m * 5) \<and>
      complianceRate m = fixed1_value (toFixed1 (max 0 (100 - averageIssuesPerDoc m * 5)))"
    if r: "calculateCompliance h = Inr m"
  proof (cases "h = []")
    case True
    with r empty hundred show ?thesis by auto
  next
    case False
    show ?thesis
      unfolding calculateCompliance_Inr[OF False r] by (simp add: complianceRate_exact)
  qed
  have link: "totalAnalyses m = length h \<and> totalIssues m = Some (issueCount h) \<and>
      (\<exists>k. averageIssuesPerDoc m = of_int k / 10) \<and>
      \<bar>averageIssuesPerDoc m - ?q\<bar> \<le> 1 / 20 \<and>
      (20 * length h \<le> issueCount h \<longrightarrow> complianceRate m = 0) \<and>
      criticalIssues m =
        Some (length (filter (\<lambda>f. field f ''severity'' = Str ''CRITICAL'')
                        (concat (map findingsOf h)))) \<and>
      highIssues m =
        Some (length (filter (\<lambda>f. field f ''severity'' = Str ''HIGH'')
                        (concat (map findingsOf h))))"
    if ne: "h \<noteq> []" and r: "calculateCompliance h = Inr m"
  proof -
    have avg: "averageIssuesPerDoc m = fixed1_value (toFixed1 ?q)"
      unfolding calculateCompliance_Inr[OF ne r] by simp
    have near: "\<bar>averageIssuesPerDoc m - ?q\<bar> \<le> 1 / 20"
      unfolding avg by (rule toFixed1_near) simp
    have tenth: "\<exists>k. averageIssuesPerDoc m = of_int k / 10"
      unfolding avg fixed1_value_def by blast
    have zero: "complianceRate m = 0" if big: "20 * length h \<le> issueCount h"
    proof -
      from ne have len: "0 < (of_nat (length h) :: rat)" by simp
      from big have "(of_nat (20 * length h) :: rat) \<le> of_nat (issueCount h)"
        by (rule of_nat_mono)
      then have "20 \<le> ?q" using len by (simp add: pos_le_divide_eq)
      then have "200 \<le> ?q * 10 + 1 / 2" by simp
      then have "200 \<le> \<lfloor>?q * 10 + 1 / 2\<rfloor>" by (simp add: le_floor_iff)
      moreover have "0 \<le> ?q" by simp
      ultimately have "200 \<le> toFixed1 ?q" by (simp add: toFixed1_def)
      then have "(of_int 200 :: rat) \<le> of_int (toFixed1 ?q)" by (rule of_int_le_iff[THEN iffD2])
      then have "20 \<le> averageIssuesPerDoc m" unfolding avg fixed1_value_def by simp
      with rate[OF r] show ?thesis by simp
    qed
    from avg near tenth zero show ?thesis
      unfolding calculateCompliance_Inr[OF ne r] by simp
  qed
  show ?thesis
  proof (intro conjI impI)
    show "calculateCompliance [] =
     Inr \<lparr>totalAnalyses = 0, totalIssues = None, averageIssuesPerDoc = 0, complianceRate = 100,
          criticalIssues = None, highIssues = None\<rparr>" by (rule empty)
    show "\<exists>r. calculateCompliance h = Inr r" if "list_all okRecord h"
      using that by (rule calculateCompliance_total)
  next
    assume r: "calculateCompliance h = Inr m"
    from rate[OF r] show "complianceRate m = max 0 (100 - averageIssuesPerDoc m * 5)"
      and "complianceRate m = fixed1_value (toFixed1 (max 0 (100 - averageIssuesPerDoc m * 5)))"
      by simp_all
    from rate[OF r] show "0 \<le> complianceRate m" by simp
    from rate[OF r] show "complianceRate m = 0" if "20 \<le> averageIssuesPerDoc m"
      using that by simp
  next
    assume a: "h \<noteq> [] \<and> calculateCompliance h = Inr m"
    from link[of] a show "totalAnalyses m = length h" by simp
    from link a show "totalIssues m = Some (issueCount h)" by simp
    from link a show "\<exists>k. averageIssuesPerDoc m = of_int k / 10" by simp
    from link a show "\<bar>averageIssuesPerDoc m - ?q\<bar> \<le> 1 / 20" by simp
    from link a show "complianceRate m = 0" if "20 * length h \<le> issueCount h"
      using that by simp
    from link a show "criticalIssues m =
        Some (length (filter (\<lambda>f. field f ''severity'' = Str ''CRITICAL'')
                        (concat (map findingsOf h))))" by simp
    from link a show "highIssues m =
        Some (length (filter (\<lambda>f. field f ''severity'' = Str ''HIGH'')
                        (concat (map findingsOf h))))" by simp
  qed
qed

theorem complianceRate_floor_witness:
  "calculateCompliance busyHistory =
     Inr \<lparr>totalAnalyses = 1, totalIssues = Some 20, averageIssuesPerDoc = 20, complianceRate = 0,
          criticalIssues = Some 0, highIssues = Some 20\<rparr> \<and>
   busyHistory \<noteq> [] \<and> length busyHistory = 1 \<and> issueCount busyHistory = 20 \<and>
   (20 :: rat) \<le> 20 \<and> (0 :: rat) = max 0 (100 - 20 * 5) \<and> list_all okRecord busyHistory"
proof -
  let ?m = "\<lparr>totalAnalyses = 1, totalIssues = Some 20, averageIssuesPerDoc = 20, complianceRate = 0,
          criticalIssues = Some 0, highIssues = Some 20\<rparr>"
  have e: "calculateCompliance busyHistory = Inr ?m"
    by code_simp
  have ok: "list_all okRecord busyHistory"
    by code_simp
  have n: "busyHistory \<noteq> []" "length busyHistory = 1"
    by (simp_all add: busyHistory_def)
  from complianceRate_floor[of busyHistory ?m] e ok n show ?thesis by simp
qed

section \<open>Novel issues\<close>

lemma foldE_insert_types:
  "foldE (\<lambda>seen f. bindE (get f ''type'') (\<lambda>t. Inr (insert t seen))) S fs = Inr S' \<Longrightarrow>
   S' = S \<union> (\<lambda>f. field f ''type'') ` set fs"
proof (induction fs arbitrary: S)
  case Nil
  then show ?case by simp
next
  case (Cons f fs)
  from Cons.prems obtain t where t: "get f ''type'' = Inr t"
    and rest: "foldE (\<lambda>seen f. bindE (get f ''type'') (\<lambda>t. Inr (insert t seen))) (insert t S) fs = Inr S'"
    by (auto simp: bindE_eq_Inr)
  from Cons.IH[OF rest] get_eq_field[OF t] show ?case by auto
qed

lemma addIssueTypes_eq:
  "addIssueTypes S a = Inr S' \<Longrightarrow> S' = S \<union> (\<lambda>f. field f ''type'') ` set (findingsOf a)"
  by (auto simp: addIssueTypes_def bindE_eq_Inr findingsOf_def dest!: foldE_insert_types)

lemma foldE_addIssueTypes:
  "foldE addIssueTypes S xs = Inr S' \<Longrightarrow>
   S' = S \<union> (\<lambda>f. field f ''type'') ` set (concat (map findingsOf xs))"
proof (induction xs arbitrary: S)
  case Nil
  then show ?case by simp
next
  case (Cons a xs)
  from Cons.prems obtain S1 where S1: "addIssueTypes S a = Inr S1" "foldE addIssueTypes S1 xs = Inr S'"
    by (auto simp: bindE_eq_Inr)
  from Cons.IH[OF S1(2)] addIssueTypes_eq[OF S1(1)] show ?case by auto
qed

lemma filterE_novel:
  "filterE (\<lambda>finding. bindE (get finding ''type'') (\<lambda>t. Inr (\<not> setHas prev t))) xs = Inr ys \<Longrightarrow>
   ys = filter (\<lambda>f. \<not> setHas prev (field f ''type'')) xs"
proof (induction xs arbitrary: ys)
  case Nil
  then show ?case by simp
next
  case (Cons x xs)
  from Cons.prems obtain t zs where t: "get x ''type'' = Inr t"
    and zs: "filterE (\<lambda>finding. bindE (get finding ''type'') (\<lambda>t. Inr (\<not> setHas prev t))) xs = Inr zs"
    and ys: "ys = (if \<not> setHas prev t then x # zs else zs)"
    by (auto simp: bindE_eq_Inr)
  from Cons.IH[OF zs] get_eq_field[OF t] ys show ?case by simp
qed

lemma novelEntry_eq: "novelEntry x = Inr y \<Longrightarrow> y = novelOf x"
  by (auto simp: novelEntry_def novelOf_def bindE_eq_Inr dest!: get_eq_field toStr_Inr)

lemma mapE_novelEntry: "mapE novelEntry xs = Inr r \<Longrightarrow> r = map novelOf xs"
proof (induction xs arbitrary: r)
  case Nil
  then show ?case by simp
next
  case (Cons x xs)
  from Cons.prems obtain y ys where "novelEntry x = Inr y" "mapE novelEntry xs = Inr ys" "r = y # ys"
    by (auto simp: bindE_eq_Inr)
  with Cons.IH[of ys] novelEntry_eq[of x y] show ?case by simp
qed

text \<open>
  What \<^verbatim>\<open>identifyNovelIssues\<close> returns for a non-empty history, whatever the types
  are: an entry for each finding the extraction yields for the last record whose
  type the set of earlier types does not have.
\<close>

lemma identifyNovelIssues_Inr:
  assumes "analyses \<noteq> []" and "identifyNovelIssues analyses = Inr r"
  shows "r = map novelOf (filter (\<lambda>f. \<not> setHas (earlierTypes analyses) (field f ''type''))
                              (findingsOf (last analyses)))"
proof -
  from assms obtain latest prev novelIssues where
    l: "extractFindings (last analyses) = Inr latest"
    and p: "foldE addIssueTypes {} (butlast analyses) = Inr prev"
    and n: "filterE (\<lambda>finding. bindE (get finding ''type'') (\<lambda>t. Inr (\<not> setHas prev t))) latest = Inr novelIssues"
    and m: "mapE novelEntry novelIssues = Inr r"
    by (auto simp: identifyNovelIssues_def bindE_eq_Inr)
  from l have "findingsOf (last analyses) = latest" by (simp add: findingsOf_def)
  moreover from foldE_addIssueTypes[OF p] have "prev = earlierTypes analyses"
    by (simp add: earlierTypes_def)
  ultimately show ?thesis
    using filterE_novel[OF n] mapE_novelEntry[OF m] by simp
qed

text \<open>
  C7, as the code has it. The defect occurrences of a record are the findings the
  extraction yields for it: those of \<^verbatim>\<open>findings\<close> if it has any, otherwise the
  nested ones. For a non-empty history, whenever \<^verbatim>\<open>identifyNovelIssues\<close> returns and
  the types of the occurrences of the last record are primitive values (strings, in
  the expected shapes), its result has exactly one entry, in order, for each
  occurrence of the last record whose type is not among the types of the occurrences
  of the earlier records (a repeated novel type is reported each time). The empty
  history gives the empty result. The operation returns on every history of records
  it can read.
\<close>

theorem identifyNovelIssues_extracted:
  "(analyses \<noteq> [] \<and> identifyNovelIssues analyses = Inr r \<and>
    list_all (\<lambda>f. primitive (field f ''type'')) (findingsOf (last analyses)) \<longrightarrow>
      r = map novelOf (filter (\<lambda>f. field f ''type'' \<notin> earlierTypes analyses)
                              (findingsOf (last analyses)))) \<and>
   identifyNovelIssues [] = Inr [] \<and>
   (list_all okRecord analyses \<longrightarrow> (\<exists>res. identifyNovelIssues analyses = Inr res))"
proof (intro conjI impI)
  show "identifyNovelIssues [] = Inr []" by (simp add: identifyNovelIssues_def)
  show "\<exists>res. identifyNovelIssues analyses = Inr res" if "list_all okRecord analyses"
    using that by (rule identifyNovelIssues_total)
next
  assume h: "analyses \<noteq> [] \<and> identifyNovelIssues analyses = Inr r \<and>
    list_all (\<lambda>f. primitive (field f ''type'')) (findingsOf (last analyses))"
  then have "filter (\<lambda>f. \<not> setHas (earlierTypes analyses) (field f ''type''))
               (findingsOf (last analyses)) =
             filter (\<lambda>f. field f ''type'' \<notin> earlierTypes analyses) (findingsOf (last analyses))"
    by (intro filter_cong refl) (simp add: setHas_def list_all_iff)
  with identifyNovelIssues_Inr[of analyses r] h
  show "r = map novelOf (filter (\<lambda>f. field f ''type'' \<notin> earlierTypes analyses)
                              (findingsOf (last analyses)))" by simp
qed

theorem identifyNovelIssues_extracted_witness:
  "novelHistory \<noteq> [] \<and>
   identifyNovelIssues novelHistory =
     Inr [novelOf (Obj [(''type'', Str ''C'')]),
          novelOf (Obj [(''type'', Str ''C''), (''severity'', Str ''LOW'')])] \<and>
   earlierTypes novelHistory = {Str ''A'', Str ''B''} \<and>
   list_all (\<lambda>f. primitive (field f ''type'')) (findingsOf (last novelHistory)) \<and>
   list_all okRecord novelHistory"
proof -
  let ?r = "[novelOf (Obj [(''type'', Str ''C'')]),
             novelOf (Obj [(''type'', Str ''C''), (''severity'', Str ''LOW'')])]"
  have e: "identifyNovelIssues novelHistory = Inr ?r"
    by code_simp
  have ok: "list_all okRecord novelHistory"
    by code_simp
  have p: "list_all (\<lambda>f. primitive (field f ''type'')) (findingsOf (last novelHistory))"
    by code_simp
  have n: "novelHistory \<noteq> []" by (simp add: novelHistory_def)
  have t: "earlierTypes novelHistory = {Str ''A'', Str ''B''}"
    by code_simp
  from identifyNovelIssues_extracted[of novelHistory ?r] e ok p n t show ?thesis by simp
qed

text \<open>
  C7 as stated fails where the last record has findings both in \<^verbatim>\<open>findings\<close> and
  nested under \<^verbatim>\<open>phases\<close>: the nested occurrence of type \<open>B\<close>, a type no earlier
  record has, is not reported.
\<close>

theorem identifyNovelIssues_nested_counterexample:
  "identifyNovelIssues nestedNovel = Inr [] \<and> spec_novelOccurrences nestedNovel = [defectB]"
  by code_simp

text \<open>
  A type that is an array is a different array in every record, and is reported as
  new although an earlier record has a type with the same elements.
\<close>

lemma identifyNovelIssues_array_type:
  "identifyNovelIssues [Obj [(''findings'', Arr [Obj [(''type'', Arr [Str ''A''])]])],
                        Obj [(''findings'', Arr [Obj [(''type'', Arr [Str ''A''])]])]] =
     Inr [novelOf (Obj [(''type'', Arr [Str ''A''])])]"
  by code_simp


section \<open>Sorting\<close>

lemma sorted_wrt_insertBy:
  assumes tot: "\<And>a b. cmp a b \<le> 0 \<or> cmp b a \<le> 0"
    and tr: "\<And>a b c. cmp a b \<le> 0 \<Longrightarrow> cmp b c \<le> 0 \<Longrightarrow> cmp a c \<le> 0"
  shows "sorted_wrt (\<lambda>a b. cmp a b \<le> 0) xs \<Longrightarrow>
         sorted_wrt (\<lambda>a b. cmp a b \<le> 0) (insertBy cmp x xs)"
proof (induction xs)
  case Nil
  then show ?case by simp
next
  case (Cons y ys)
  show ?case
  proof (cases "cmp x y \<le> 0")
    case True
    have "cmp x z \<le> 0" if "z \<in> set ys" for z
      using Cons.prems that tr[OF True, of z] by simp
    then show ?thesis using True Cons.prems by simp
  next
    case False
    with tot[of x y] have "cmp y x \<le> 0" by simp
    then show ?thesis using False Cons by (simp add: set_insertBy)
  qed
qed

lemma sorted_wrt_sortBy:
  assumes "\<And>a b. cmp a b \<le> 0 \<or> cmp b a \<le> 0"
    and "\<And>a b c. cmp a b \<le> 0 \<Longrightarrow> cmp b c \<le> 0 \<Longrightarrow> cmp a c \<le> 0"
  shows "sorted_wrt (\<lambda>a b. cmp a b \<le> 0) (sortBy cmp xs)"
proof (induction xs)
  case Nil
  then show ?case by simp
next
  case (Cons x xs)
  then show ?case using sorted_wrt_insertBy[of cmp, OF assms] by simp
qed

lemma filter_insertBy:
  assumes "\<And>y. y \<in> set ys \<Longrightarrow> P x \<Longrightarrow> P y \<Longrightarrow> cmp x y \<le> 0"
  shows "filter P (insertBy cmp x ys) = (if P x then x # filter P ys else filter P ys)"
  using assms by (induction ys) auto

lemma filter_sortBy:
  assumes "\<And>x y. P x \<Longrightarrow> P y \<Longrightarrow> cmp x y \<le> 0"
  shows "filter P (sortBy cmp xs) = filter P xs"
proof (induction xs)
  case Nil
  then show ?case by simp
next
  case (Cons x xs)
  have "filter P (insertBy cmp x (sortBy cmp xs)) =
        (if P x then x # filter P (sortBy cmp xs) else filter P (sortBy cmp xs))"
    by (rule filter_insertBy) (rule assms)
  with Cons show ?case by simp
qed

section \<open>Recommendations\<close>

lemma byPriority_le: "byPriority a b \<le> 0 \<longleftrightarrow> precedes a b"
  by (auto simp: byPriority_def precedes_def)

lemma byPriority_total: "byPriority a b \<le> 0 \<or> byPriority b a \<le> 0"
  unfolding byPriority_le by (auto simp: precedes_def)

lemma byPriority_trans: "byPriority a b \<le> 0 \<Longrightarrow> byPriority b c \<le> 0 \<Longrightarrow> byPriority a c \<le> 0"
  unfolding byPriority_le by (auto simp: precedes_def)

lemma sorted_byPriority: "sorted_wrt precedes (sortBy byPriority recs)"
proof -
  have "sorted_wrt (\<lambda>a b. byPriority a b \<le> 0) (sortBy byPriority recs)"
    by (rule sorted_wrt_sortBy) (rule byPriority_total, rule byPriority_trans)
  then show ?thesis by (simp add: byPriority_le[abs_def])
qed

lemma stable_byPriority:
  "filter (\<lambda>r. r_priority r = p \<and> r_frequency r = f) (sortBy byPriority recs) =
   filter (\<lambda>r. r_priority r = p \<and> r_frequency r = f) recs"
  by (rule filter_sortBy) (simp add: byPriority_def)

lemma recommend_Inr:
  assumes "recommend recs g = Inr recs'"
  obtains m1 m2 m3 where
    "matchRule (g_type g) ''55d'' ''directions'' = Inr m1"
    "matchRule (g_type g) ''49'' ''reason to believe'' = Inr m2"
    "matchRule (g_type g) ''464'' ''caution'' = Inr m3"
    "recs' = (let recs1 = (if m1 then recs @ [specialized g (Str ''HIGH'') Checklist55D
                                        (Str ''Road Safety Act 1986 s.55D'')] else recs);
                  recs2 = (if m2 then recs1 @ [specialized g (Str ''HIGH'') Training49
                                         (Str ''Road Safety Act 1986 s.49'')] else recs1);
                  recs3 = (if m3 then recs2 @ [specialized g (Str ''CRITICAL'') Caution464
                                         (Str ''Crimes Act 1958 s.464'')] else recs2)
              in if find (\<lambda>r. r_issue r = g_type g) recs3 = None \<and> g_count g \<ge> 5
                 then recs3 @ [generic g] else recs3)"
  using assms unfolding recommend_def bindE_eq_Inr Let_def by auto

lemma recommend_justified:
  assumes "list_all justified recs" and "recommend recs g = Inr recs'"
  shows "list_all justified recs'"
proof -
  from assms(2) obtain m1 m2 m3 where m:
    "matchRule (g_type g) ''55d'' ''directions'' = Inr m1"
    "matchRule (g_type g) ''49'' ''reason to believe'' = Inr m2"
    "matchRule (g_type g) ''464'' ''caution'' = Inr m3"
    and r: "recs' = (let recs1 = (if m1 then recs @ [specialized g (Str ''HIGH'') Checklist55D
                                        (Str ''Road Safety Act 1986 s.55D'')] else recs);
                  recs2 = (if m2 then recs1 @ [specialized g (Str ''HIGH'') Training49
                                         (Str ''Road Safety Act 1986 s.49'')] else recs1);
                  recs3 = (if m3 then recs2 @ [specialized g (Str ''CRITICAL'') Caution464
                                         (Str ''Crimes Act 1958 s.464'')] else recs2)
              in if find (\<lambda>r. r_issue r = g_type g) recs3 = None \<and> g_count g \<ge> 5
                 then recs3 @ [generic g] else recs3)"
    by (rule recommend_Inr)
  have s: "justified (specialized g sev tpl st)" if "m1 \<or> m2 \<or> m3" for sev tpl st
    using that m by (auto simp: justified_def specialized_def specializedRule_def)
  have gen: "justified (generic g)" if "g_count g \<ge> 5"
    using that by (simp add: justified_def generic_def)
  show ?thesis
    unfolding r Let_def using assms(1) s gen by (simp split: if_splits)
qed

lemma recommend_unmatched:
  assumes "recommend recs g = Inr recs'" and "\<not> specializedRule (g_type g)" and "g_count g < 5"
  shows "recommend acc g = Inr acc"
proof -
  from assms(1) obtain m1 m2 m3 where m:
    "matchRule (g_type g) ''55d'' ''directions'' = Inr m1"
    "matchRule (g_type g) ''49'' ''reason to believe'' = Inr m2"
    "matchRule (g_type g) ''464'' ''caution'' = Inr m3"
    by (rule recommend_Inr)
  with assms(2) have "\<not> m1" "\<not> m2" "\<not> m3" by (auto simp: specializedRule_def)
  with m assms(3) show ?thesis by (simp add: recommend_def)
qed

text \<open>
  C8. Whenever \<^verbatim>\<open>generateRecommendations\<close> returns, its result is ordered by
  ascending priority and, within one priority, by descending frequency; entries
  of equal priority and frequency keep the order in which they were pushed. A
  recurring group with a count below 5 that matches none of the three specialized
  rules leaves the list of recommendations as it is, and no entry of the result
  with its type has a frequency below 5.
\<close>

theorem generateRecommendations_ordered:
  "generateRecommendations analyses = Inr rs \<Longrightarrow>
   sorted_wrt precedes rs \<and>
   (\<exists>recurring recs.
      findRecurringDefects analyses = Inr recurring \<and> foldE recommend [] recurring = Inr recs \<and>
      (\<forall>p f. filter (\<lambda>r. r_priority r = p \<and> r_frequency r = f) rs =
              filter (\<lambda>r. r_priority r = p \<and> r_frequency r = f) recs) \<and>
      (\<forall>g \<in> set recurring. g_count g < 5 \<and> \<not> specializedRule (g_type g) \<longrightarrow>
          (\<forall>acc. recommend acc g = Inr acc) \<and>
          (\<forall>r \<in> set rs. r_issue r = g_type g \<longrightarrow> r_priority r = 2 \<and> 5 \<le> r_frequency r)))"
proof -
  assume "generateRecommendations analyses = Inr rs"
  then obtain recurring recs where
    rec: "findRecurringDefects analyses = Inr recurring"
    and fold: "foldE recommend [] recurring = Inr recs"
    and rs: "rs = sortBy byPriority recs"
    by (auto simp: generateRecommendations_def bindE_eq_Inr)
  have sorted: "sorted_wrt precedes rs"
    unfolding rs by (rule sorted_byPriority)
  have stable: "filter (\<lambda>r. r_priority r = p \<and> r_frequency r = f) rs =
                filter (\<lambda>r. r_priority r = p \<and> r_frequency r = f) recs" for p f
    unfolding rs by (rule stable_byPriority)
  have "list_all justified recs"
  proof (rule foldE_invariant[where P = "list_all justified", OF _ _ fold])
    show "list_all justified []" by simp
  next
    fix s x s'
    assume "list_all justified s" "recommend s x = Inr s'"
    then show "list_all justified s'" by (rule recommend_justified)
  qed
  then have just: "justified r" if "r \<in> set rs" for r
    using that unfolding rs by (simp add: set_sortBy list_all_iff)
  have small: "(\<forall>acc. recommend acc g = Inr acc) \<and>
          (\<forall>r \<in> set rs. r_issue r = g_type g \<longrightarrow> r_priority r = 2 \<and> 5 \<le> r_frequency r)"
    if g: "g \<in> set recurring" and c: "g_count g < 5" and u: "\<not> specializedRule (g_type g)" for g
  proof (intro conjI allI ballI impI)
    fix acc
    from foldE_each[OF fold g] obtain a b where "recommend a g = Inr b" by blast
    then show "recommend acc g = Inr acc" using u c by (rule recommend_unmatched)
  next
    fix r
    assume "r \<in> set rs" "r_issue r = g_type g"
    with just[of r] u show "r_priority r = 2" "5 \<le> r_frequency r"
      by (auto simp: justified_def)
  qed
  from sorted rec fold stable small show ?thesis by blast
qed

theorem generateRecommendations_ordered_witness:
  "generateRecommendations recHistory = Inr recResult \<and> sorted_wrt precedes recResult \<and>
   (\<exists>recurring. findRecurringDefects recHistory = Inr recurring \<and>
      unsignedGroup \<in> set recurring \<and> g_count unsignedGroup < 5 \<and>
      \<not> specializedRule (g_type unsignedGroup) \<and>
      (\<forall>acc. recommend acc unsignedGroup = Inr acc) \<and>
      (\<forall>r \<in> set recResult. r_issue r = g_type unsignedGroup \<longrightarrow> 5 \<le> r_frequency r))"
proof -
  have e: "generateRecommendations recHistory = Inr recResult"
    by code_simp
  have m: "case findRecurringDefects recHistory of Inr recurring \<Rightarrow> unsignedGroup \<in> set recurring
           | Inl err \<Rightarrow> False"
    by code_simp
  have c: "g_count unsignedGroup < 5" by (simp add: unsignedGroup_def)
  have u: "\<not> specializedRule (g_type unsignedGroup)"
    by code_simp
  from generateRecommendations_ordered[OF e] obtain recurring where
    r: "findRecurringDefects recHistory = Inr recurring"
    and small: "\<forall>g \<in> set recurring. g_count g < 5 \<and> \<not> specializedRule (g_type g) \<longrightarrow>
          (\<forall>acc. recommend acc g = Inr acc) \<and>
          (\<forall>r \<in> set recResult. r_issue r = g_type g \<longrightarrow> r_priority r = 2 \<and> 5 \<le> r_frequency r)"
    and sorted: "sorted_wrt precedes recResult"
    by blast
  from m r have mem: "unsignedGroup \<in> set recurring" by simp
  with small c u have "(\<forall>acc. recommend acc unsignedGroup = Inr acc) \<and>
      (\<forall>r \<in> set recResult. r_issue r = g_type unsignedGroup \<longrightarrow> 5 \<le> r_frequency r)"
    by blast
  with e sorted r mem c u show ?thesis by blast
qed

section \<open>Recurring defects: counts per key\<close>

lemma map_fst_updateGroup: "map fst (updateGroup key f dc) = map fst dc"
  by (induction dc) (auto simp: updateGroup_def)

lemma updateGroup_other:
  "key \<notin> fst ` set dc \<Longrightarrow> updateGroup key f dc = dc"
  by (induction dc) (auto simp: updateGroup_def)

lemma updateGroup_append:
  "updateGroup key f (xs @ ys) = updateGroup key f xs @ updateGroup key f ys"
  by (simp add: updateGroup_def)

lemma in_set_updateGroup:
  "(k, g') \<in> set (updateGroup key f xs) \<longleftrightarrow>
   (\<exists>g. (k, g) \<in> set xs \<and> g' = (if k = key then f g else g))"
  by (induction xs) (auto simp: updateGroup_def split: if_splits)

lemma distinct_map_insertBy:
  "distinct (map h (insertBy cmp x xs)) \<longleftrightarrow> h x \<notin> h ` set xs \<and> distinct (map h xs)"
  by (induction xs) (auto simp: set_insertBy)

lemma distinct_map_sortBy: "distinct (map h (sortBy cmp xs)) \<longleftrightarrow> distinct (map h xs)"
  by (induction xs) (simp_all add: distinct_map_insertBy set_sortBy)

lemma map_of_None_iff: "map_of dc k = None \<longleftrightarrow> k \<notin> fst ` set dc"
  by (simp add: map_of_eq_None_iff)

lemma firstOfKey_append:
  "firstOfKey (ds @ [d]) k =
     (if k \<in> keyOf ` set ds then firstOfKey ds k else if keyOf d = k then d else Undefined)"
  by (induction ds) (auto simp: firstOfKey_def)

lemma firstOfKey_in_set:
  "k \<in> keyOf ` set ds \<Longrightarrow> firstOfKey ds k \<in> set ds \<and> keyOf (firstOfKey ds k) = k"
  by (induction ds) (auto simp: firstOfKey_def)

lemma countDefect_eq:
  assumes "\<not> nullish analysis" and "readableDefect defect"
  shows "countDefect analysis dc defect =
    Inr (updateGroup (keyOf defect)
           (\<lambda>g. g\<lparr>g_count := g_count g + 1, g_lastSeen := field analysis ''timestamp'',
                   g_descriptions := g_descriptions g @ [field defect ''description''],
                   g_analysisIds := g_analysisIds g @ [field analysis ''id'']\<rparr>)
           (if map_of dc (keyOf defect) = None
            then dc @ [(keyOf defect,
                        \<lparr>g_type = field defect ''type'', g_statute = field defect ''statute'',
                         g_severity = field defect ''severity'', g_count = 0,
                         g_firstSeen = field analysis ''timestamp'',
                         g_lastSeen = field analysis ''timestamp'',
                         g_descriptions = [], g_analysisIds = []\<rparr>)]
            else dc))"
proof -
  from assms(2) have nd: "\<not> nullish defect"
    and key: "defectKey (field defect ''type'') (field defect ''statute'') = Inr (keyOf defect)"
    by (simp_all add: readableDefect_def defectKey_keyOf)
  show ?thesis
    using assms(1) nd key by (simp add: countDefect_def get_field Let_def)
qed

lemma countDefect_Inr:
  assumes "countDefect analysis dc defect = Inr dc'"
  shows "\<not> nullish analysis \<and> readableDefect defect"
proof -
  from assms obtain ty where ty: "get defect ''type'' = Inr ty"
    by (auto simp: countDefect_def bindE_eq_Inr)
  then have nd: "\<not> nullish defect" by (rule get_Inr_not_nullish)
  from assms nd obtain key where
    key: "defectKey (field defect ''type'') (field defect ''statute'') = Inr key"
    and ts: "get analysis ''timestamp'' = Inr (field analysis ''timestamp'')"
    by (auto simp: countDefect_def get_field bindE_eq_Inr dest: get_eq_field)
  from ts have "\<not> nullish analysis" by (rule get_Inr_not_nullish)
  with nd defectKey_Inr[OF key] show ?thesis by (simp add: readableDefect_def)
qed

lemma counted_step:
  assumes inv: "counted dc ds" and nn: "\<not> nullish analysis" "readableDefect defect"
    and step: "countDefect analysis dc defect = Inr dc'"
  shows "counted dc' (ds @ [defect])"
proof -
  let ?key = "keyOf defect"
  let ?f = "\<lambda>g. g\<lparr>g_count := g_count g + 1, g_lastSeen := field analysis ''timestamp'',
                   g_descriptions := g_descriptions g @ [field defect ''description''],
                   g_analysisIds := g_analysisIds g @ [field analysis ''id'']\<rparr>"
  let ?new = "\<lparr>g_type = field defect ''type'', g_statute = field defect ''statute'',
                g_severity = field defect ''severity'', g_count = 0,
                g_firstSeen = field analysis ''timestamp'',
                g_lastSeen = field analysis ''timestamp'',
                g_descriptions = [], g_analysisIds = []\<rparr>"
  from inv have d: "distinct (map fst dc)" and s: "fst ` set dc = keyOf ` set ds"
    and a: "\<And>k g. (k, g) \<in> set dc \<Longrightarrow> g_count g = count_list (map keyOf ds) k \<and>
                 g_type g = field (firstOfKey ds k) ''type'' \<and>
                 g_statute g = field (firstOfKey ds k) ''statute''"
    by (auto simp: counted_def list_all_iff)
  from step have dc': "dc' = updateGroup ?key ?f
      (if map_of dc ?key = None then dc @ [(?key, ?new)] else dc)"
    unfolding countDefect_eq[OF nn] by simp
  show ?thesis
  proof (cases "map_of dc ?key = None")
    case True
    then have fresh: "?key \<notin> fst ` set dc" by (simp add: map_of_None_iff)
    with s have zero: "count_list (map keyOf ds) ?key = 0" by (simp add: count_list_0_iff)
    have "updateGroup ?key ?f (dc @ [(?key, ?new)]) = dc @ updateGroup ?key ?f [(?key, ?new)]"
      unfolding updateGroup_append updateGroup_other[OF fresh] ..
    also have "updateGroup ?key ?f [(?key, ?new)] = [(?key, ?f ?new)]"
      by (simp add: updateGroup_def)
    finally have eq: "dc' = dc @ [(?key, ?f ?new)]"
      using True dc' by simp
    have 1: "distinct (map fst dc')" using d fresh by (simp add: eq)
    have 2: "fst ` set dc' = keyOf ` set (ds @ [defect])" using s by (auto simp: eq)
    have 3: "g_count g = count_list (map keyOf (ds @ [defect])) k \<and>
           g_type g = field (firstOfKey (ds @ [defect]) k) ''type'' \<and>
           g_statute g = field (firstOfKey (ds @ [defect]) k) ''statute''"
      if "(k, g) \<in> set dc'" for k g
    proof (cases "(k, g) \<in> set dc")
      case True
      then have "k \<noteq> ?key" using fresh by force
      moreover from True have "k \<in> keyOf ` set ds" using s by force
      ultimately show ?thesis using a[OF True] by (simp add: firstOfKey_append)
    next
      case False
      with that eq have "k = ?key" "g = ?f ?new" by auto
      moreover have "?key \<notin> keyOf ` set ds" using fresh s by simp
      ultimately show ?thesis using zero by (simp add: firstOfKey_append)
    qed
    from 1 2 3 show ?thesis by (auto simp: counted_def list_all_iff)
  next
    case False
    then have old: "?key \<in> fst ` set dc" by (simp add: map_of_None_iff)
    from dc' have eq: "dc' = updateGroup ?key ?f dc" unfolding if_not_P[OF False] .
    have 1: "distinct (map fst dc')" using d by (simp add: eq map_fst_updateGroup)
    have "fst ` set dc' = fst ` set dc"
      using map_fst_updateGroup[of ?key ?f dc] unfolding eq by (metis list.set_map)
    then have 2: "fst ` set dc' = keyOf ` set (ds @ [defect])" using s old by auto
    have 3: "g_count g = count_list (map keyOf (ds @ [defect])) k \<and>
           g_type g = field (firstOfKey (ds @ [defect]) k) ''type'' \<and>
           g_statute g = field (firstOfKey (ds @ [defect]) k) ''statute''"
      if "(k, g) \<in> set dc'" for k g
    proof -
      from that obtain g0 where g0: "(k, g0) \<in> set dc" "g = (if k = ?key then ?f g0 else g0)"
        unfolding eq in_set_updateGroup by blast
      from g0(1) have "k \<in> keyOf ` set ds" using s by force
      with a[OF g0(1)] g0(2) show ?thesis by (cases "k = ?key") (auto simp: firstOfKey_append)
    qed
    from 1 2 3 show ?thesis by (auto simp: counted_def list_all_iff)
  qed
qed

lemma counted_inner:
  "counted dc ds \<Longrightarrow> foldE (countDefect analysis) dc fs = Inr dc' \<Longrightarrow> counted dc' (ds @ fs)"
proof (induction fs arbitrary: dc ds)
  case Nil
  then show ?case by simp
next
  case (Cons f fs)
  from Cons.prems(2) obtain dc1 where 1: "countDefect analysis dc f = Inr dc1"
    and 2: "foldE (countDefect analysis) dc1 fs = Inr dc'"
    by (auto simp: bindE_eq_Inr)
  from countDefect_Inr[OF 1] have "counted dc1 (ds @ [f])"
    using counted_step[OF Cons.prems(1) _ _ 1] by blast
  from Cons.IH[OF this 2] show ?case by simp
qed

lemma counted_outer:
  "counted dc ds \<Longrightarrow> foldE countAnalysis dc h = Inr dc' \<Longrightarrow>
   counted dc' (ds @ concat (map findingsOf h))"
proof (induction h arbitrary: dc ds)
  case Nil
  then show ?case by simp
next
  case (Cons a h)
  from Cons.prems(2) obtain dc1 where 1: "countAnalysis dc a = Inr dc1"
    and 2: "foldE countAnalysis dc1 h = Inr dc'"
    by (auto simp: bindE_eq_Inr)
  from 1 obtain fs where fs: "extractFindings a = Inr fs" "foldE (countDefect a) dc fs = Inr dc1"
    by (auto simp: countAnalysis_def bindE_eq_Inr)
  from counted_inner[OF Cons.prems(1) fs(2)] have "counted dc1 (ds @ fs)" .
  from Cons.IH[OF this 2] fs(1) show ?case by (simp add: findingsOf_def)
qed

lemma byCountDesc_le: "byCountDesc a b \<le> 0 \<longleftrightarrow> g_count b \<le> g_count a"
  by (simp add: byCountDesc_def)

lemma sorted_byCountDesc: "sorted_wrt (\<lambda>a b. g_count b \<le> g_count a) (sortBy byCountDesc gs)"
proof -
  have "sorted_wrt (\<lambda>a b. byCountDesc a b \<le> 0) (sortBy byCountDesc gs)"
    by (rule sorted_wrt_sortBy) (auto simp: byCountDesc_le)
  then show ?thesis by (simp add: byCountDesc_le[abs_def])
qed

text \<open>
  What \<^verbatim>\<open>findRecurringDefects\<close> does for every history on which it returns: the
  result is sorted by descending count; it holds exactly the keys that occur at least
  three times, each once, with the number of occurrences of the key as count and the
  type and statute of the first occurrence with that key.
\<close>

lemma findRecurringDefects_counts:
  assumes "findRecurringDefects h = Inr r"
  shows "sorted_wrt (\<lambda>a b. g_count b \<le> g_count a) r"
    and "distinct (map groupKey r)"
    and "g \<in> set r \<Longrightarrow> 3 \<le> g_count g \<and>
           g_count g = count_list (map keyOf (concat (map findingsOf h))) (groupKey g) \<and>
           (\<exists>d \<in> set (concat (map findingsOf h)). keyOf d = groupKey g \<and>
               g_type g = field d ''type'' \<and> g_statute g = field d ''statute'')"
    and "3 \<le> count_list (map keyOf (concat (map findingsOf h))) k \<Longrightarrow>
           \<exists>g \<in> set r. groupKey g = k"
    and "g \<in> set r \<Longrightarrow>
           g_type g = field (firstOfKey (concat (map findingsOf h)) (groupKey g)) ''type''"
proof -
  let ?ds = "concat (map findingsOf h)"
  from assms obtain dc where dc: "foldE countAnalysis [] h = Inr dc"
    and r: "r = sortBy byCountDesc (filter (\<lambda>d. g_count d \<ge> 3) (map snd dc))"
    by (auto simp: findRecurringDefects_def bindE_eq_Inr)
  have "counted [] []" by (simp add: counted_def)
  from counted_outer[OF this dc] have c: "counted dc ?ds" by simp
  then have d: "distinct (map fst dc)" and s: "fst ` set dc = keyOf ` set ?ds"
    and f: "\<And>k g. (k, g) \<in> set dc \<Longrightarrow> g_count g = count_list (map keyOf ?ds) k \<and>
                 g_type g = field (firstOfKey ?ds k) ''type'' \<and>
                 g_statute g = field (firstOfKey ?ds k) ''statute''"
    by (auto simp: counted_def list_all_iff)
  have a: "g_count g = count_list (map keyOf ?ds) k \<and>
           (\<exists>d \<in> set ?ds. keyOf d = k \<and> g_type g = field d ''type'' \<and>
                               g_statute g = field d ''statute'')"
    if "(k, g) \<in> set dc" for k g
  proof -
    from that s have "k \<in> keyOf ` set ?ds" by force
    from firstOfKey_in_set[OF this] f[OF that] show ?thesis by blast
  qed
  have key: "groupKey g = k" if "(k, g) \<in> set dc" for k g
    using a[OF that] by (auto simp: groupKey_def keyOf_def groupStatute_def statuteOrUnknown_def)
  then have keys: "map groupKey (map snd dc) = map fst dc"
    by (auto simp: map_eq_conv)
  show "sorted_wrt (\<lambda>a b. g_count b \<le> g_count a) r"
    unfolding r by (rule sorted_byCountDesc)
  have "distinct (map groupKey (filter (\<lambda>d. g_count d \<ge> 3) (map snd dc)))"
    using d keys by (metis distinct_map_filter)
  then have "distinct (map groupKey (sortBy byCountDesc (filter (\<lambda>d. g_count d \<ge> 3) (map snd dc))))"
    by (simp add: distinct_map_sortBy)
  then show "distinct (map groupKey r)" by (simp add: r)
  show "3 \<le> g_count g \<and>
           g_count g = count_list (map keyOf ?ds) (groupKey g) \<and>
           (\<exists>d \<in> set ?ds. keyOf d = groupKey g \<and>
               g_type g = field d ''type'' \<and> g_statute g = field d ''statute'')"
    if "g \<in> set r"
  proof -
    from that obtain k where k: "(k, g) \<in> set dc" and "3 \<le> g_count g"
      by (auto simp: r set_sortBy)
    with a[OF k] key[OF k] show ?thesis by auto
  qed
  show "\<exists>g \<in> set r. groupKey g = k" if "3 \<le> count_list (map keyOf ?ds) k"
  proof -
    from that have "k \<in> keyOf ` set ?ds"
      by (metis count_list_0_iff list.set_map not_numeral_le_zero)
    with s obtain g where g: "(k, g) \<in> set dc" by force
    with a[OF g] that have "g \<in> set r" by (force simp: r set_sortBy)
    with key[OF g] show ?thesis by blast
  qed
  show "g_type g = field (firstOfKey ?ds (groupKey g)) ''type''" if "g \<in> set r"
  proof -
    from that obtain k where k: "(k, g) \<in> set dc"
      by (auto simp: r set_sortBy)
    with f[OF k] key[OF k] show ?thesis by simp
  qed
qed

lemma count_list_filter: "count_list (map f xs) k = length (filter (\<lambda>x. f x = k) xs)"
  by (induction xs) simp_all

text \<open>
  Where no occurrence with another pair of type and statute shares the key of the
  pair \<open>(ty, st)\<close>, the pair is in the result exactly when it occurs at least three
  times, and then with its number of occurrences as count.
\<close>

lemma findRecurringDefects_pair:
  assumes r: "findRecurringDefects h = Inr r"
    and inj: "\<And>d. d \<in> set (concat (map findingsOf h)) \<Longrightarrow>
              keyOf d = textOf ty @ ''|'' @ textOf st \<Longrightarrow>
              field d ''type'' = ty \<and> statuteOrUnknown d = st"
  shows "spec_pairCount h ty st < 3 \<Longrightarrow> \<not> (\<exists>g \<in> set r. g_type g = ty \<and> groupStatute g = st)"
    and "3 \<le> spec_pairCount h ty st \<Longrightarrow>
         \<exists>g \<in> set r. g_type g = ty \<and> groupStatute g = st \<and> g_count g = spec_pairCount h ty st"
proof -
  let ?ds = "concat (map findingsOf h)"
  let ?k = "textOf ty @ ''|'' @ textOf st"
  have "filter (\<lambda>d. keyOf d = ?k) ?ds = filter (\<lambda>d. field d ''type'' = ty \<and> statuteOrUnknown d = st) ?ds"
    by (rule filter_cong[OF refl]) (use inj in \<open>auto simp: keyOf_def\<close>)
  then have n: "count_list (map keyOf ?ds) ?k = spec_pairCount h ty st"
    by (simp add: count_list_filter spec_pairCount_def)
  show "\<not> (\<exists>g \<in> set r. g_type g = ty \<and> groupStatute g = st)" if "spec_pairCount h ty st < 3"
  proof
    assume "\<exists>g \<in> set r. g_type g = ty \<and> groupStatute g = st"
    then obtain g where g: "g \<in> set r" "groupKey g = ?k" by (auto simp: groupKey_def)
    from findRecurringDefects_counts(3)[OF r g(1)] g(2) n that show False by simp
  qed
  show "\<exists>g \<in> set r. g_type g = ty \<and> groupStatute g = st \<and> g_count g = spec_pairCount h ty st"
    if "3 \<le> spec_pairCount h ty st"
  proof -
    from that n findRecurringDefects_counts(4)[OF r, of ?k]
    obtain g where g: "g \<in> set r" "groupKey g = ?k" by auto
    from findRecurringDefects_counts(3)[OF r g(1)] obtain d where
      d: "d \<in> set ?ds" "keyOf d = groupKey g" "g_type g = field d ''type''"
        "g_statute g = field d ''statute''"
      and c: "g_count g = count_list (map keyOf ?ds) (groupKey g)"
      by blast
    from inj[OF d(1)] d(2) g(2) have "field d ''type'' = ty" "statuteOrUnknown d = st" by simp_all
    with d(3,4) have "g_type g = ty" "groupStatute g = st"
      by (auto simp: groupStatute_def statuteOrUnknown_def)
    with g c n show ?thesis by auto
  qed
qed



text \<open>
  C4 fails on the code. The key joins type and statute with \<open>|\<close>, so two different
  pairs can share it: the pair (\<open>Caution\<close>, \<open>s.464|Crimes Act\<close>) occurs exactly twice and
  the pair (\<open>Caution|s.464\<close>, \<open>Crimes Act\<close>) once, and the result holds a group for the
  first pair with count 3. (The threshold of three occurrences per key and the
  descending order of the counts are as claimed: \<open>findRecurringDefects_counts\<close>.)
\<close>

theorem findRecurringDefects_key_collision:
  "spec_pairCount collidingHistory (Str ''Caution'') (Str ''s.464|Crimes Act'') = 2 \<and>
   spec_pairCount collidingHistory (Str ''Caution|s.464'') (Str ''Crimes Act'') = 1 \<and>
   findRecurringDefects collidingHistory =
     Inr [\<lparr>g_type = Str ''Caution'', g_statute = Str ''s.464|Crimes Act'', g_severity = Undefined,
           g_count = 3, g_firstSeen = Str ''t1'', g_lastSeen = Str ''t2'',
           g_descriptions = [Undefined, Undefined, Undefined],
           g_analysisIds = [Num 1, Num 2, Num 2]\<rparr>]"
  by code_simp

section \<open>Histories on which all operations return\<close>

lemma countAnalysis_total:
  assumes "okRecord a"
  shows "\<exists>dc'. countAnalysis dc a = Inr dc'"
proof -
  from okRecord_extract[OF assms] have ex: "extractFindings a = Inr (findingsOf a)"
    and rd: "list_all readableDefect (findingsOf a)" by simp_all
  from assms have nn: "\<not> nullish a" by (simp add: okRecord_def wellFormed_def)
  have "\<exists>dc'. foldE (countDefect a) dc (findingsOf a) = Inr dc' \<and> True"
  proof (rule foldE_total[where P = "\<lambda>s. True"])
    fix s x assume "x \<in> set (findingsOf a)"
    with rd have "readableDefect x" by (simp add: list_all_iff)
    from countDefect_eq[OF nn this, of s] show "\<exists>s'. countDefect a s x = Inr s' \<and> True" by simp
  qed simp
  then show ?thesis using ex by (simp add: countAnalysis_def)
qed

lemma countAnalysis_Inr:
  assumes "countAnalysis dc a = Inr dc'"
  shows "okRecord a"
proof -
  from assms obtain fs where fs: "extractFindings a = Inr fs"
    and f: "foldE (countDefect a) dc fs = Inr dc'"
    by (auto simp: countAnalysis_def bindE_eq_Inr)
  have "readableDefect d" if "d \<in> set fs" for d
  proof -
    from foldE_each[OF f that] obtain s s' where "countDefect a s d = Inr s'" by blast
    from countDefect_Inr[OF this] show ?thesis by simp
  qed
  with extract_findingsOf[OF fs] show ?thesis by (simp add: okRecord_def list_all_iff)
qed

text \<open>
  \<^verbatim>\<open>findRecurringDefects\<close> returns on exactly the histories of records it can read;
  \<^verbatim>\<open>generateRecommendations\<close> returns where, in addition, every recurring group has
  a type that is a string or falsy.
\<close>

lemma findRecurringDefects_returns:
  "(\<exists>r. findRecurringDefects h = Inr r) \<longleftrightarrow> list_all okRecord h"
proof
  assume "\<exists>r. findRecurringDefects h = Inr r"
  then obtain dc where dc: "foldE countAnalysis [] h = Inr dc"
    by (auto simp: findRecurringDefects_def bindE_eq_Inr)
  have "okRecord a" if "a \<in> set h" for a
  proof -
    from foldE_each[OF dc that] obtain s s' where "countAnalysis s a = Inr s'" by blast
    then show ?thesis by (rule countAnalysis_Inr)
  qed
  then show "list_all okRecord h" by (simp add: list_all_iff)
next
  assume ok: "list_all okRecord h"
  have "\<exists>dc. foldE countAnalysis [] h = Inr dc \<and> True"
  proof (rule foldE_total[where P = "\<lambda>s. True"])
    fix s x assume "x \<in> set h"
    with ok have "okRecord x" by (simp add: list_all_iff)
    then show "\<exists>s'. countAnalysis s x = Inr s' \<and> True" using countAnalysis_total by simp
  qed simp
  then show "\<exists>r. findRecurringDefects h = Inr r" by (auto simp: findRecurringDefects_def)
qed

lemma matchRule_returns: "(\<exists>b. matchRule ty p q = Inr b) \<longleftrightarrow> strOrFalsy ty"
  by (cases ty) (auto simp: matchRule_def strOrFalsy_def)

lemma recommend_returns: "(\<exists>recs'. recommend recs g = Inr recs') \<longleftrightarrow> strOrFalsy (g_type g)"
proof
  assume "\<exists>recs'. recommend recs g = Inr recs'"
  then have "\<exists>b. matchRule (g_type g) ''55d'' ''directions'' = Inr b"
    by (auto simp: recommend_def bindE_eq_Inr)
  then show "strOrFalsy (g_type g)" by (simp add: matchRule_returns)
next
  assume "strOrFalsy (g_type g)"
  then obtain m1 m2 m3 where
    "matchRule (g_type g) ''55d'' ''directions'' = Inr m1"
    "matchRule (g_type g) ''49'' ''reason to believe'' = Inr m2"
    "matchRule (g_type g) ''464'' ''caution'' = Inr m3"
    using matchRule_returns by meson
  then show "\<exists>recs'. recommend recs g = Inr recs'" by (simp add: recommend_def Let_def)
qed

lemma generateRecommendations_returns:
  assumes "findRecurringDefects h = Inr r"
  shows "(\<exists>recs. generateRecommendations h = Inr recs) \<longleftrightarrow> list_all (\<lambda>g. strOrFalsy (g_type g)) r"
proof
  assume "\<exists>recs. generateRecommendations h = Inr recs"
  with assms obtain recs where f: "foldE recommend [] r = Inr recs"
    by (auto simp: generateRecommendations_def bindE_eq_Inr)
  have "strOrFalsy (g_type g)" if "g \<in> set r" for g
  proof -
    from foldE_each[OF f that] obtain s s' where "recommend s g = Inr s'" by blast
    then show ?thesis using recommend_returns by blast
  qed
  then show "list_all (\<lambda>g. strOrFalsy (g_type g)) r" by (simp add: list_all_iff)
next
  assume ok: "list_all (\<lambda>g. strOrFalsy (g_type g)) r"
  have "\<exists>recs. foldE recommend [] r = Inr recs \<and> True"
  proof (rule foldE_total[where P = "\<lambda>s. True"])
    fix s :: "recommendation list" and x assume "x \<in> set r"
    with ok have "strOrFalsy (g_type x)" by (simp add: list_all_iff)
    then show "\<exists>s'. recommend s x = Inr s' \<and> True" using recommend_returns by simp
  qed simp
  then show "\<exists>recs. generateRecommendations h = Inr recs"
    using assms by (auto simp: generateRecommendations_def)
qed

lemma recurring_types:
  assumes r: "findRecurringDefects h = Inr r"
  shows "list_all (\<lambda>g. strOrFalsy (g_type g)) r \<longleftrightarrow> recurringTypesOk h"
proof -
  let ?ds = "concat (map findingsOf h)"
  show ?thesis
  proof
    assume ok: "list_all (\<lambda>g. strOrFalsy (g_type g)) r"
    have "count_list (map keyOf ?ds) (keyOf d) < 3 \<or>
          strOrFalsy (field (firstOfKey ?ds (keyOf d)) ''type'')" if "d \<in> set ?ds" for d
    proof (cases "count_list (map keyOf ?ds) (keyOf d) < 3")
      case False
      then have "3 \<le> count_list (map keyOf ?ds) (keyOf d)" by simp
      from findRecurringDefects_counts(4)[OF r this] obtain g where
        g: "g \<in> set r" "groupKey g = keyOf d" by blast
      from ok g(1) have "strOrFalsy (g_type g)" by (simp add: list_all_iff)
      with findRecurringDefects_counts(5)[OF r g(1)] g(2) show ?thesis by simp
    qed simp
    then show "recurringTypesOk h" unfolding recurringTypesOk_def Let_def list_all_iff by blast
  next
    assume ok: "recurringTypesOk h"
    have "strOrFalsy (g_type g)" if g: "g \<in> set r" for g
    proof -
      from findRecurringDefects_counts(3)[OF r g] obtain d where
        d: "d \<in> set ?ds" "keyOf d = groupKey g"
        and c: "3 \<le> count_list (map keyOf ?ds) (groupKey g)" by auto
      from ok d(1) have "count_list (map keyOf ?ds) (keyOf d) < 3 \<or>
          strOrFalsy (field (firstOfKey ?ds (keyOf d)) ''type'')"
        unfolding recurringTypesOk_def Let_def list_all_iff by blast
      with c d(2) have "strOrFalsy (field (firstOfKey ?ds (groupKey g)) ''type'')" by simp
      with findRecurringDefects_counts(5)[OF r g] show ?thesis by simp
    qed
    then show "list_all (\<lambda>g. strOrFalsy (g_type g)) r" by (simp add: list_all_iff)
  qed
qed

text \<open>
  C9, as the code has it. \<^verbatim>\<open>findRecurringDefects\<close> returns normally on exactly the
  histories in which

  \<^item> every record is not \<^verbatim>\<open>undefined\<close> or \<^verbatim>\<open>null\<close>, its \<^verbatim>\<open>findings\<close> is falsy or an
    array and, if \<^verbatim>\<open>findings\<close> is falsy, \<^verbatim>\<open>phases\<close> or \<^verbatim>\<open>phases.presetAnalysis\<close> is
    \<^verbatim>\<open>undefined\<close> or \<^verbatim>\<open>null\<close>, or \<^verbatim>\<open>phases.presetAnalysis\<close> is an array with no
    element \<^verbatim>\<open>undefined\<close> or \<^verbatim>\<open>null\<close>; and

  \<^item> every finding the extraction yields is not \<^verbatim>\<open>undefined\<close> or \<^verbatim>\<open>null\<close>, and its
    type and its statute (or \<open>unknown\<close>) convert to strings.

  On these histories \<^verbatim>\<open>analyzeTrends\<close>, \<^verbatim>\<open>identifyNovelIssues\<close> and
  \<^verbatim>\<open>calculateCompliance\<close> return as well. \<^verbatim>\<open>generateRecommendations\<close> returns on
  exactly those of them in which, for every key that occurs at least three times,
  the type of the first occurrence is a string or falsy. So the five operations all
  return on exactly the latter histories, and on every other history at least one
  of them throws. A record that is not \<^verbatim>\<open>undefined\<close> or \<^verbatim>\<open>null\<close>, whose \<^verbatim>\<open>findings\<close>
  is falsy and whose \<^verbatim>\<open>phases\<close> or \<^verbatim>\<open>phases.presetAnalysis\<close> is \<^verbatim>\<open>undefined\<close> or
  \<^verbatim>\<open>null\<close> (as it is when \<^verbatim>\<open>phases\<close> is no object) contributes the empty findings
  sequence.
\<close>

theorem operations_return_exactly:
  "(\<exists>r. findRecurringDefects h = Inr r) = list_all okRecord h \<and>
   (list_all okRecord h \<longrightarrow>
      (\<exists>r. analyzeTrends h = Inr r) \<and> (\<exists>r. identifyNovelIssues h = Inr r) \<and>
      (\<exists>r. calculateCompliance h = Inr r)) \<and>
   (\<exists>r. generateRecommendations h = Inr r) = (list_all okRecord h \<and> recurringTypesOk h) \<and>
   ((\<exists>r. findRecurringDefects h = Inr r) \<and> (\<exists>r. analyzeTrends h = Inr r) \<and>
    (\<exists>r. generateRecommendations h = Inr r) \<and> (\<exists>r. identifyNovelIssues h = Inr r) \<and>
    (\<exists>r. calculateCompliance h = Inr r)) =
   (list_all okRecord h \<and> recurringTypesOk h) \<and>
   (\<not> nullish a \<and> \<not> truthy (field a ''findings'') \<and>
    (nullish (field a ''phases'') \<or> nullish (field (field a ''phases'') ''presetAnalysis''))
    \<longrightarrow> extractFindings a = Inr [])"
proof -
  have frd: "(\<exists>r. findRecurringDefects h = Inr r) = list_all okRecord h"
    by (rule findRecurringDefects_returns)
  have others: "(\<exists>r. analyzeTrends h = Inr r) \<and> (\<exists>r. identifyNovelIssues h = Inr r) \<and>
      (\<exists>r. calculateCompliance h = Inr r)" if ok: "list_all okRecord h"
    using analyzeTrends_total[OF ok] identifyNovelIssues_total[OF ok]
      calculateCompliance_total[OF ok] by blast
  have gen: "(\<exists>r. generateRecommendations h = Inr r) = (list_all okRecord h \<and> recurringTypesOk h)"
  proof
    assume "\<exists>recs. generateRecommendations h = Inr recs"
    then obtain recs where g: "generateRecommendations h = Inr recs" by blast
    then obtain r where r: "findRecurringDefects h = Inr r"
      by (auto simp: generateRecommendations_def bindE_eq_Inr)
    from r frd have "list_all okRecord h" by blast
    moreover from g generateRecommendations_returns[OF r] recurring_types[OF r]
    have "recurringTypesOk h" by blast
    ultimately show "list_all okRecord h \<and> recurringTypesOk h" ..
  next
    assume ok: "list_all okRecord h \<and> recurringTypesOk h"
    with frd obtain r where r: "findRecurringDefects h = Inr r" by blast
    from ok generateRecommendations_returns[OF r] recurring_types[OF r]
    show "\<exists>recs. generateRecommendations h = Inr recs" by blast
  qed
  from frd others gen
  have exact: "((\<exists>r. findRecurringDefects h = Inr r) \<and> (\<exists>r. analyzeTrends h = Inr r) \<and>
    (\<exists>r. generateRecommendations h = Inr r) \<and> (\<exists>r. identifyNovelIssues h = Inr r) \<and>
    (\<exists>r. calculateCompliance h = Inr r)) =
   (list_all okRecord h \<and> recurringTypesOk h)" by blast
  have empty: "extractFindings a = Inr []"
    if absent: "\<not> nullish a \<and> \<not> truthy (field a ''findings'') \<and>
      (nullish (field a ''phases'') \<or> nullish (field (field a ''phases'') ''presetAnalysis''))"
  proof -
    from absent have nn: "\<not> nullish a" by simp
    have "nestedFindings a = Inr Undefined"
    proof (cases "nullish (field a ''phases'')")
      case True
      then show ?thesis using nn by (simp add: nestedFindings_def get_field)
    next
      case False
      with absent have "nullish (field (field a ''phases'') ''presetAnalysis'')" by simp
      then show ?thesis using nn False by (simp add: nestedFindings_def get_field)
    qed
    then show ?thesis
      using absent nn
      by (simp add: extractFindings_def findingsExpr_def get_field arrayMethod_def)
  qed
  from frd others gen exact empty show ?thesis by blast
qed

theorem operations_return_exactly_witness:
  "list_all okRecord looseShapes \<and> recurringTypesOk looseShapes \<and>
   (\<exists>r. findRecurringDefects looseShapes = Inr r) \<and> (\<exists>r. analyzeTrends looseShapes = Inr r) \<and>
   (\<exists>r. generateRecommendations looseShapes = Inr r) \<and>
   (\<exists>r. identifyNovelIssues looseShapes = Inr r) \<and>
   (\<exists>r. calculateCompliance looseShapes = Inr r) \<and>
   extractFindings (Obj [(''id'', Num 1), (''findings'', Num 0), (''phases'', Num 5)]) = Inr [] \<and>
   extractFindings (Str ''record'') = Inr []"
proof -
  have ok: "list_all okRecord looseShapes" "recurringTypesOk looseShapes"
    by code_simp+
  have a: "\<not> nullish (Obj [(''id'', Num 1), (''findings'', Num 0), (''phases'', Num 5)])"
    "\<not> truthy (field (Obj [(''id'', Num 1), (''findings'', Num 0), (''phases'', Num 5)]) ''findings'')"
    "nullish (field (field (Obj [(''id'', Num 1), (''findings'', Num 0), (''phases'', Num 5)]) ''phases'') ''presetAnalysis'')"
    "\<not> nullish (Str ''record'')" "\<not> truthy (field (Str ''record'') ''findings'')"
    "nullish (field (Str ''record'') ''phases'')"
    by (simp_all add: field_def)
  from operations_return_exactly[of looseShapes
      "Obj [(''id'', Num 1), (''findings'', Num 0), (''phases'', Num 5)]"]
    operations_return_exactly[of looseShapes "Str ''record''"] ok a
  show ?thesis by blast
qed

text \<open>The findings of the records of \<open>looseShapes\<close>, and the types of its recurring
  groups.\<close>

lemma looseShapes_results:
  "map findingsOf looseShapes =
     [[], [Str ''loose'', Num 7, defectA], [],
      [defectA, Obj [(''type'', Num 5)], defectA, Obj [(''type'', Num 5)]]] \<and>
   map g_type (case findRecurringDefects looseShapes of Inr r \<Rightarrow> r | Inl e \<Rightarrow> []) = [Str ''A'']"
  by code_simp

text \<open>
  C9 as stated fails: a record whose \<^verbatim>\<open>findings\<close> is a non-empty string is not
  treated as having no findings. Each operation calls an array method on the
  string and throws a TypeError.
\<close>

theorem operations_raise_on_malformed_counterexample:
  "findRecurringDefects [malformed] = Inl TypeError \<and>
   analyzeTrends [malformed, malformed, malformed] = Inl TypeError \<and>
   generateRecommendations [malformed] = Inl TypeError \<and>
   identifyNovelIssues [malformed] = Inl TypeError \<and>
   calculateCompliance [malformed] = Inl TypeError"
  by code_simp


end
